theory Spec2Isabelle
  imports Complex_Main "HOL-Library.AList"
begin

section \<open>Numbers and containers\<close>

text \<open>
  The program computes with JavaScript numbers. They are modelled by \<^typ>\<open>real\<close>, and
  outside \<open>pearsonCorrelation\<close> every arithmetic operation is exact, so rounding,
  overflow to Infinity and NaN are outside the model. Where the source produces NaN on
  purpose (the percentiles of an empty sample) the value is a \<^typ>\<open>real option\<close> and
  \<open>None\<close> stands for NaN. The guard \<open>stdDev === 0\<close> of \<open>pearsonCorrelation\<close> depends on
  rounding, so there every operation rounds its exact result to the nearest double.

  A JavaScript \<open>Map\<close> that the program iterates is an association list in insertion
  order: \<open>get\<close> is \<^const>\<open>map_of\<close>, \<open>set\<close> is \<^const>\<open>AList.update\<close> (replace in place, or
  append a new key at the end). A \<open>Set\<close> is a list without duplicates in insertion order.
\<close>

definition MIN_SLACK_TOLERANCE :: real where
  "MIN_SLACK_TOLERANCE = 1 / 10 ^ 6"

type_synonym ('k, 'v) jsmap = "('k \<times> 'v) list"

definition set_add :: "'a \<Rightarrow> 'a list \<Rightarrow> 'a list" where
  "set_add x xs = (if x \<in> set xs then xs else xs @ [x])"

section \<open>Percentiles (\<open>getPercentiles\<close>, App.js and helpers.js)\<close>

text \<open>The body of the \<open>percentiles.forEach\<close> callback, for one requested percentile \<open>p\<close>.\<close>

definition percentileAt :: "real list \<Rightarrow> real \<Rightarrow> real" where
  "percentileAt sortedData p =
     (let n = int (length sortedData);
          rank = (p / 100) * (real_of_int n - 1);
          lowerIndex = \<lfloor>rank\<rfloor>;
          upperIndex = \<lceil>rank\<rceil>;
          weight = rank - real_of_int lowerIndex
      in if upperIndex \<ge> n then sortedData ! nat (n - 1)
         else if lowerIndex < 0 then sortedData ! 0
         else sortedData ! nat lowerIndex * (1 - weight) + sortedData ! nat upperIndex * weight)"

text \<open>
  The result object maps each requested percentile to its value; on empty data every
  requested percentile maps to NaN (\<open>None\<close>).
\<close>

definition getPercentiles :: "real list \<Rightarrow> real list \<Rightarrow> (real \<rightharpoonup> real option)" where
  "getPercentiles data percentiles =
     (if data = [] then map_of (map (\<lambda>p. (p, None)) percentiles)
      else let sortedData = sort data
           in map_of (map (\<lambda>p. (p, Some (percentileAt sortedData p))) percentiles))"

text \<open>
  The specification's wording of Percentile(data, p): sort ascending, rank
  \<open>(p/100)\<cdot>(n-1)\<close>, interpolate linearly between the floor and the ceiling index weighted
  by the fractional part, clamp to the first and the last element at the boundaries.
\<close>

definition Percentile_spec :: "real list \<Rightarrow> real \<Rightarrow> real" where
  "Percentile_spec data p =
     (let s = sort data;
          n = length s;
          rank = (p / 100) * (real n - 1);
          frac = rank - real_of_int \<lfloor>rank\<rfloor>
      in if rank \<le> 0 then s ! 0
         else if rank \<ge> real n - 1 then s ! (n - 1)
         else s ! nat \<lfloor>rank\<rfloor> * (1 - frac) + s ! nat \<lceil>rank\<rceil> * frac)"

section \<open>Rounding to double precision\<close>

text \<open>
  The nearest integer, a tie going to the even one, and the nearest number with a
  significand of 53 bits: the rounding of IEEE 754 binary64 in its default mode. The
  exponent is not bounded, so overflow to Infinity and the subnormal numbers are outside
  the model.
\<close>

definition roundHalfEven :: "real \<Rightarrow> int" where
  "roundHalfEven x =
     (let f = \<lfloor>x\<rfloor>;
          r = x - of_int f
      in if r < 1 / 2 then f
         else if r > 1 / 2 then f + 1
         else if even f then f else f + 1)"

definition binary64 :: "real \<Rightarrow> real" where
  "binary64 x =
     (if x = 0 then 0
      else
        let e = \<lfloor>log 2 \<bar>x\<bar>\<rfloor> - 52
        in of_int (roundHalfEven (x / 2 powr of_int e)) * 2 powr of_int e)"

text \<open>The operators \<open>+\<close>, \<open>-\<close>, \<open>*\<close>, \<open>/\<close> and \<open>Math.sqrt\<close> on doubles.\<close>

definition add64 :: "real \<Rightarrow> real \<Rightarrow> real" where
  "add64 a b = binary64 (a + b)"

definition sub64 :: "real \<Rightarrow> real \<Rightarrow> real" where
  "sub64 a b = binary64 (a - b)"

definition mul64 :: "real \<Rightarrow> real \<Rightarrow> real" where
  "mul64 a b = binary64 (a * b)"

definition div64 :: "real \<Rightarrow> real \<Rightarrow> real" where
  "div64 a b = binary64 (a / b)"

definition sqrt64 :: "real \<Rightarrow> real" where
  "sqrt64 a = binary64 (sqrt a)"

section \<open>Pearson correlation (\<open>pearsonCorrelation\<close>, App.js)\<close>

text \<open>
  The arguments are lists of doubles. \<open>n\<close> and \<open>n - 1\<close> are small integers and exact;
  the square \<open>(val - mean) ** 2\<close> is the rounded product of the difference with itself.
\<close>

definition pearsonCorrelation :: "real list \<Rightarrow> real list \<Rightarrow> real" where
  "pearsonCorrelation x y =
     (let n = length x
      in if n \<le> 1 \<or> length x \<noteq> length y then 0
         else
           let meanX = div64 (fold (\<lambda>val acc. add64 acc val) x 0) (real n);
               meanY = div64 (fold (\<lambda>val acc. add64 acc val) y 0) (real n);
               stdDevX =
                 sqrt64 (div64 (fold (\<lambda>val acc. add64 acc (mul64 (sub64 val meanX) (sub64 val meanX))) x 0)
                               (real n - 1));
               stdDevY =
                 sqrt64 (div64 (fold (\<lambda>val acc. add64 acc (mul64 (sub64 val meanY) (sub64 val meanY))) y 0)
                               (real n - 1))
           in if stdDevX = 0 \<or> stdDevY = 0 then 0
              else
                let numerator =
                      fold (\<lambda>i num. add64 num (mul64 (sub64 (x ! i) meanX) (sub64 (y ! i) meanY)))
                           [0..<n] 0;
                    denominator = mul64 (mul64 (real n - 1) stdDevX) stdDevY
                in if denominator = 0 then 0
                   else max (- 1) (min 1 (div64 numerator denominator)))"

text \<open>
  The specification's wording, in exact arithmetic: sample means, sample standard
  deviations with Bessel's correction (divide by \<open>n - 1\<close>), the correlation
  \<open>\<Sum>(x - mean x)(y - mean y) / ((n - 1)\<cdot>sdX\<cdot>sdY)\<close>, defined as 0 when a standard deviation
  is 0 or \<open>n \<le> 1\<close>, clamped to \<open>[-1, 1]\<close>.
\<close>

definition sampleMean :: "real list \<Rightarrow> real" where
  "sampleMean xs = sum_list xs / real (length xs)"

definition sampleStdDev :: "real list \<Rightarrow> real" where
  "sampleStdDev xs =
     sqrt (sum_list (map (\<lambda>v. (v - sampleMean xs) ^ 2) xs) / (real (length xs) - 1))"

definition Pearson_spec :: "real list \<Rightarrow> real list \<Rightarrow> real" where
  "Pearson_spec x y =
     (let n = length x
      in if n \<le> 1 \<or> length y \<noteq> n then 0
         else if sampleStdDev x = 0 \<or> sampleStdDev y = 0 then 0
         else max (- 1) (min 1
                (sum_list (map (\<lambda>(u, v). (u - sampleMean x) * (v - sampleMean y)) (zip x y))
                 / ((real n - 1) * sampleStdDev x * sampleStdDev y))))"

text \<open>The sum of the squared deviations from the mean.\<close>

definition sumSq :: "real list \<Rightarrow> real" where
  "sumSq xs = sum_list (map (\<lambda>v. (v - sampleMean xs) ^ 2) xs)"

section \<open>Distribution samplers (App.js)\<close>

text \<open>
  The generator \<open>random\<close> is an object of the external library random-js,
  \<open>new Random(MersenneTwister19937.autoSeed())\<close>. It is a parameter of the model: a state
  \<open>'g\<close> threaded through every draw and the uniform draw \<open>realZeroToOneExclusive\<close>, the
  one method of the object that the samplers can call.
\<close>

record 'g random =
  realZeroToOneExclusive :: "'g \<Rightarrow> real \<times> 'g"

datatype exn = TypeError

text \<open>
  \<open>random.beta(alpha, beta)\<close>. The class \<open>Random\<close> of random-js has no method \<open>beta\<close>
  (its methods are \<open>integer\<close>, \<open>real\<close>, \<open>realZeroToOneInclusive\<close>,
  \<open>realZeroToOneExclusive\<close>, \<open>bool\<close>, \<open>pick\<close>, \<open>shuffle\<close>, \<open>sample\<close>, \<open>die\<close>, \<open>dice\<close>,
  \<open>uuid4\<close>, \<open>string\<close>, \<open>hex\<close> and \<open>date\<close>), so \<open>random.beta\<close> is \<open>undefined\<close> and the call
  throws a TypeError; the generator is not touched.
\<close>

definition random_beta ::
  "('g, 'r) random_scheme \<Rightarrow> real \<Rightarrow> real \<Rightarrow> 'g \<Rightarrow> (exn + real) \<times> 'g" where
  "random_beta R alpha beta g = (Inl TypeError, g)"

definition randomTriangular ::
  "('g, 'r) random_scheme \<Rightarrow> real \<Rightarrow> real \<Rightarrow> real \<Rightarrow> 'g \<Rightarrow> real \<times> 'g" where
  "randomTriangular R mn mode mx g =
     (if mx = mn then (mn, g)
      else
        let range = mx - mn;
            clampedMode = max mn (min mode mx);
            c = (clampedMode - mn) / range;
            (u, g') = realZeroToOneExclusive R g
        in if u < c then (mn + sqrt (u * range * (clampedMode - mn)), g')
           else (mx - sqrt ((1 - u) * range * (mx - clampedMode)), g'))"

text \<open>
  \<open>while (u === 0) u = random.realZeroToOneExclusive()\<close>, entered with \<open>u = 0\<close>: draw
  until the draw is not 0. A generator that returns 0 for ever keeps the loop running;
  that is the value \<open>None\<close>.
\<close>

partial_function (option) drawNonZero ::
  "('g, 'r) random_scheme \<Rightarrow> 'g \<Rightarrow> (real \<times> 'g) option" where
  "drawNonZero R g =
     (case realZeroToOneExclusive R g of
        (u, g') \<Rightarrow> if u = 0 then drawNonZero R g' else Some (u, g'))"

definition randomNormal ::
  "('g, 'r) random_scheme \<Rightarrow> real \<Rightarrow> real \<Rightarrow> 'g \<Rightarrow> (real \<times> 'g) option" where
  "randomNormal R mean stdDev g =
     (if stdDev < 0 then Some (mean, g)
      else if stdDev = 0 then Some (mean, g)
      else
        case drawNonZero R g of
          None \<Rightarrow> None
        | Some (u, g1) \<Rightarrow>
            (case drawNonZero R g1 of
               None \<Rightarrow> None
             | Some (v, g2) \<Rightarrow>
                 let z = sqrt (- 2 * ln u) * cos (2 * pi * v)
                 in Some (mean + stdDev * z, g2)))"

definition randomLogNormal ::
  "('g, 'r) random_scheme \<Rightarrow> real \<Rightarrow> real \<Rightarrow> 'g \<Rightarrow> (real \<times> 'g) option" where
  "randomLogNormal R mu sigma g =
     (if sigma < 0 then Some (exp mu, g)
      else if sigma = 0 then Some (exp mu, g)
      else
        case randomNormal R mu sigma g of
          None \<Rightarrow> None
        | Some (x, g') \<Rightarrow> Some (exp x, g'))"

text \<open>
  \<open>randomPERT(min, likely, max, gamma = 4)\<close>. The result is the sample, or the exception
  that the call of \<open>random.beta\<close> throws. All reals are finite, so \<open>isFinite\<close> holds of every value
  the model computes; the one division whose divisor the code does not test is the one
  by \<open>gamma + 2\<close>. When \<open>gamma + 2\<close> is 0 the source's \<open>mu\<close> is Infinity or NaN: it is
  \<open>===\<close> to none of \<open>max\<close>, \<open>clampedLikely\<close>, \<open>min\<close>, the three differences taken from it
  are not 0, \<open>alpha\<close> is NaN and the \<open>isFinite\<close> test sends the call to the Triangular
  fallback; \<open>pertMu\<close> is \<open>None\<close> there.
\<close>

definition isFinite :: "real \<Rightarrow> bool" where
  "isFinite x = True"

definition pertMu :: "real \<Rightarrow> real \<Rightarrow> real \<Rightarrow> real \<Rightarrow> real option" where
  "pertMu mn clampedLikely mx gamma =
     (if gamma + 2 = 0 then None else Some ((mn + gamma * clampedLikely + mx) / (gamma + 2)))"

text \<open>The shape parameters \<open>(alpha, beta)\<close>; \<open>None\<close> where the source returns early to Triangular.\<close>

definition pertShape :: "real \<Rightarrow> real \<Rightarrow> real \<Rightarrow> real \<Rightarrow> real \<Rightarrow> (real \<times> real) option" where
  "pertShape mn clampedLikely mx gamma mu =
     (let range = mx - mn
      in if mu = mx \<or> clampedLikely = mu then Some (gamma + 1, 1)
         else if mu = mn then Some (1, gamma + 1)
         else
           let muMinusMin = mu - mn;
               maxMinusMu = mx - mu;
               likelyMinusMu = clampedLikely - mu
           in if likelyMinusMu = 0 \<or> muMinusMin = 0 \<or> range = 0 then None
              else
                let alpha = (muMinusMin * (2 * clampedLikely - mn - mx)) / (likelyMinusMu * range);
                    beta = (alpha * maxMinusMu) / muMinusMin
                in Some (alpha, beta))"

definition randomPERT ::
  "('g, 'r) random_scheme \<Rightarrow> real \<Rightarrow> real \<Rightarrow> real \<Rightarrow> real \<Rightarrow> 'g \<Rightarrow> (exn + real) \<times> 'g" where
  "randomPERT R mn likely mx gamma g =
     (if mx = mn then (Inr mn, g)
      else if mx < mn \<or> likely < mn \<or> likely > mx then (Inr likely, g)
      else
        let range = mx - mn;
            clampedLikely = max mn (min likely mx);
            fallback = (case randomTriangular R mn clampedLikely mx g of (x, g') \<Rightarrow> (Inr x, g'))
        in case pertMu mn clampedLikely mx gamma of
             None \<Rightarrow> fallback
           | Some mu \<Rightarrow>
               (case pertShape mn clampedLikely mx gamma mu of
                  None \<Rightarrow> fallback
                | Some (alpha, beta) \<Rightarrow>
                    if \<not> isFinite alpha \<or> \<not> isFinite beta \<or> alpha \<le> 0 \<or> beta \<le> 0
                    then fallback
                    else
                      (case random_beta R alpha beta g of
                         (Inl e, g') \<Rightarrow> (Inl e, g')
                       | (Inr betaSample, g') \<Rightarrow> (Inr (mn + betaSample * range), g'))))"


section \<open>The PERT sampler of helpers.js\<close>




section \<open>Generators for examples\<close>

text \<open>
  Every uniform draw of \<open>countingRandom\<close> is \<open>1/2\<close>; the draws of \<open>countingMathRandom\<close>
  are \<open>1/2\<close>, \<open>1/3\<close>, \<open>1/4\<close>, ... Both states count the draws.
\<close>

definition countingRandom :: "nat random" where
  "countingRandom = \<lparr>realZeroToOneExclusive = (\<lambda>g. (1 / 2, Suc g))\<rparr>"

section \<open>Tasks and dependencies\<close>

text \<open>
  The dependency type and the distribution family are strings chosen from a fixed list;
  \<open>OtherType\<close> and \<open>OtherDist\<close> stand for any other string, which the \<open>switch\<close>
  statements send to their \<open>default\<close> branch.
\<close>

datatype depType = FS | SS | FF | SF | OtherType

datatype distType = Triangular | PERT | Normal | LogNormal | OtherDist

record dependency =
  predecessorId :: string
  type_dep :: depType
  lag :: real

record estimate =
  min_est :: real
  likely :: real
  max_est :: real

record normalParams =
  mean :: real
  stdDev :: real

record logNormalParams =
  mu :: real
  sigma :: real

record task =
  id_task :: string
  name :: string
  wbs :: string
  distType :: distType
  duration :: estimate
  normalParams :: normalParams
  logNormalParams :: logNormalParams
  cost :: estimate
  dependencies :: "dependency list"

definition START :: string where
  "START = ''START''"

definition END :: string where
  "END = ''END''"

section \<open>The CPM scheduler (\<open>calculateCPM\<close>, App.js)\<close>

subsection \<open>The task map and the dependency graph\<close>

text \<open>
  \<open>taskMap[task.id] = { ...task, index, duration: runDurations[index] }\<close>: the entry keeps
  the task, its index, and the sampled duration (\<open>None\<close> when \<open>runDurations\<close> is too short
  and the read gives \<open>undefined\<close>). A later task with the same id replaces the entry.
\<close>

record taskEntry =
  entry_task :: task
  index :: nat
  entry_duration :: "real option"

definition taskMap :: "task list \<Rightarrow> real list \<Rightarrow> (string \<rightharpoonup> taskEntry)" where
  "taskMap tasks runDurations =
     fold (\<lambda>(index, task) m.
             m(id_task task \<mapsto>
               \<lparr>entry_task = task, index = index,
                entry_duration =
                  (if index < length runDurations then Some (runDurations ! index) else None)\<rparr>))
          (enumerate 0 tasks) Map.empty"

record graph =
  nodes :: "string list"
  adj :: "(string, string list) jsmap"
  revAdj :: "(string, string list) jsmap"

text \<open>
  \<open>m.get(k).push(x)\<close>. Every key the program pushes to was set before; on an absent key
  (where JavaScript would throw a TypeError) the model leaves the map as it is.
\<close>

definition push_at :: "string \<Rightarrow> string \<Rightarrow> (string, string list) jsmap \<Rightarrow> (string, string list) jsmap" where
  "push_at k x m = (case map_of m k of None \<Rightarrow> m | Some xs \<Rightarrow> AList.update k (xs @ [x]) m)"

text \<open>\<open>adj.get(u).push(v); revAdj.get(v).push(u)\<close>\<close>

definition addEdge :: "string \<Rightarrow> string \<Rightarrow> graph \<Rightarrow> graph" where
  "addEdge u v G = G\<lparr>adj := push_at u v (adj G), revAdj := push_at v u (revAdj G)\<rparr>"

definition initGraph :: "task list \<Rightarrow> graph" where
  "initGraph tasks =
     (let G = fold (\<lambda>task G.
                      \<lparr>nodes = set_add (id_task task) (nodes G),
                       adj = AList.update (id_task task) [] (adj G),
                       revAdj = AList.update (id_task task) [] (revAdj G)\<rparr>)
                   tasks \<lparr>nodes = [START, END], adj = [], revAdj = []\<rparr>
      in G\<lparr>adj := AList.update START [] (adj G), revAdj := AList.update END [] (revAdj G)\<rparr>)"

text \<open>The second \<open>tasks.forEach\<close>: the edges of one task's dependencies, or the implicit START edge.\<close>

definition linkTask :: "task \<Rightarrow> graph \<Rightarrow> graph" where
  "linkTask task G =
     (if dependencies task \<noteq> [] then
        let G1 = fold (\<lambda>dep G.
                         let predId = predecessorId dep
                         in if predId \<noteq> [] \<and> map_of (adj G) predId \<noteq> None
                            then addEdge predId (id_task task) G
                            else G)
                      (dependencies task) G;
            actualPreds =
              filter (\<lambda>p. p \<noteq> START)
                (case map_of (revAdj G1) (id_task task) of None \<Rightarrow> [] | Some ps \<Rightarrow> ps)
        in if actualPreds = [] then addEdge START (id_task task) G1 else G1
      else addEdge START (id_task task) G)"

text \<open>The third \<open>tasks.forEach\<close>: a task without successor gets the implicit edge to END.\<close>

definition linkEnd :: "task \<Rightarrow> graph \<Rightarrow> graph" where
  "linkEnd task G =
     (case map_of (adj G) (id_task task) of
        None \<Rightarrow> G
      | Some succs \<Rightarrow> if succs = [] then addEdge (id_task task) END G else G)"

definition buildGraph :: "task list \<Rightarrow> graph" where
  "buildGraph tasks = fold linkEnd tasks (fold linkTask tasks (initGraph tasks))"

subsection \<open>Topological sort (Kahn's algorithm)\<close>

text \<open>
  A key absent from \<open>inDegree\<close> reads as \<open>undefined\<close>; \<open>undefined - 1\<close> is NaN, which is
  never \<open>=== 0\<close> and stays NaN. The model leaves such a key absent, which reads the same.
\<close>

definition countInDegree :: "graph \<Rightarrow> (string, int) jsmap" where
  "countInDegree G =
     fold (\<lambda>(u, successors) inDegree.
             fold (\<lambda>succ inDegree.
                     AList.update succ
                       ((case map_of inDegree succ of None \<Rightarrow> 0 | Some d \<Rightarrow> d) + 1) inDegree)
                  successors inDegree)
          (adj G)
          (fold (\<lambda>node inDegree. AList.update node 0 inDegree) (nodes G) [])"

text \<open>The callback of \<open>adj.get(u).forEach\<close> inside the \<open>while\<close> loop.\<close>

definition relax :: "string \<Rightarrow> (string, int) jsmap \<times> string list \<Rightarrow> (string, int) jsmap \<times> string list" where
  "relax v s =
     (case s of (inDegree, queue) \<Rightarrow>
        (case map_of inDegree v of
           None \<Rightarrow> (inDegree, queue)
         | Some d \<Rightarrow>
             (AList.update v (d - 1) inDegree, if d - 1 = 0 then queue @ [v] else queue)))"

definition positives :: "(string, int) jsmap \<Rightarrow> nat" where
  "positives inDegree = length (filter (\<lambda>(k, d). 0 < d) inDegree)"

text \<open>One round of the \<open>while\<close> loop after \<open>queue.shift()\<close>: \<open>if (adj.has(u)) adj.get(u).forEach(...)\<close>.\<close>

definition relaxAll :: "graph \<Rightarrow> string \<Rightarrow> (string, int) jsmap \<times> string list \<Rightarrow> (string, int) jsmap \<times> string list" where
  "relaxAll G u s = (case map_of (adj G) u of None \<Rightarrow> s | Some successors \<Rightarrow> fold relax successors s)"

text \<open>
  \<open>while (queue.length > 0)\<close>. The loop ends on every state: a round removes the head of
  the queue, and a node is pushed only when its counter steps from 1 to 0, so the length
  of the queue plus the number of positive counters decreases.
\<close>

function kahn :: "graph \<Rightarrow> (string, int) jsmap \<Rightarrow> string list \<Rightarrow> string list \<Rightarrow> string list" where
  "kahn G inDegree [] topoOrder = topoOrder"
| "kahn G inDegree (u # queue) topoOrder =
     (case relaxAll G u (inDegree, queue) of
        (inDegree', queue') \<Rightarrow> kahn G inDegree' queue' (topoOrder @ [u]))"
  by pat_completeness auto
termination
proof (relation "measure (\<lambda>(G, inDegree, queue, topoOrder). length queue + positives inDegree)")
  show "wf (measure (\<lambda>(G, inDegree, queue, topoOrder). length queue + positives inDegree))"
    by simp
next
  fix G :: graph and inDegree :: "(string, int) jsmap" and u queue topoOrder x1 x2
  assume r: "(x1, x2) = relaxAll G u (inDegree, queue)"
  have upd: "positives (AList.update v (d - 1) m) + (if d = 1 then 1 else 0) = positives m"
    if "map_of m v = Some d" for m :: "(string, int) jsmap" and v d
    using that
  proof (induction m)
    case Nil
    then show ?case by simp
  next
    case (Cons p m)
    then show ?case by (cases p) (auto simp: positives_def)
  qed
  have step: "length (snd (relax v s)) + positives (fst (relax v s)) = length (snd s) + positives (fst s)"
    for v s
  proof (cases s)
    case (Pair m q)
    show ?thesis
    proof (cases "map_of m v")
      case None
      then show ?thesis using Pair by (simp add: relax_def)
    next
      case (Some d)
      then show ?thesis using Pair upd [OF Some] by (auto simp: relax_def)
    qed
  qed
  have all: "length (snd (fold relax vs s)) + positives (fst (fold relax vs s))
             = length (snd s) + positives (fst s)" for vs s
    by (induction vs arbitrary: s) (simp_all add: step)
  have "length x2 + positives x1 = length queue + positives inDegree"
  proof (cases "map_of (adj G) u")
    case None
    then show ?thesis using r by (simp add: relaxAll_def)
  next
    case (Some vs)
    then have "(x1, x2) = fold relax vs (inDegree, queue)" using r by (simp add: relaxAll_def)
    then show ?thesis using all [of vs "(inDegree, queue)"] by (metis fst_conv snd_conv)
  qed
  then show "((G, x1, x2, topoOrder @ [u]), (G, inDegree, u # queue, topoOrder))
        \<in> measure (\<lambda>(G, inDegree, queue, topoOrder). length queue + positives inDegree)"
    by simp
qed

definition topoSort :: "graph \<Rightarrow> string list" where
  "topoSort G =
     (let inDegree = countInDegree G;
          queue = filter (\<lambda>node. map_of inDegree node = Some 0) (nodes G)
      in kahn G inDegree queue [])"

subsection \<open>Forward and backward pass\<close>

text \<open>
  \<open>es\<close>, \<open>ef\<close> are Maps set to 0 on every node and read as \<open>es.get(i) || 0\<close>; \<open>ls\<close>, \<open>lf\<close>
  are set to \<open>totalDuration\<close> on every node and read as \<open>ls.get(j) ?? totalDuration\<close>.
  They are never iterated, and every other read is at a node. They are total functions,
  whose value at a key that was never set is the value the read defaults to.
\<close>

definition durationOf :: "taskEntry option \<Rightarrow> real" where
  "durationOf taskJ =
     max 0 (case taskJ of
              None \<Rightarrow> 0
            | Some e \<Rightarrow> (case entry_duration e of None \<Rightarrow> 0 | Some d \<Rightarrow> d))"

text \<open>\<open>taskJ?.dependencies?.find(d => d.predecessorId === i)\<close>\<close>

definition findDependency :: "taskEntry option \<Rightarrow> string \<Rightarrow> dependency option" where
  "findDependency taskJ i =
     (case taskJ of
        None \<Rightarrow> None
      | Some e \<Rightarrow> List.find (\<lambda>d. predecessorId d = i) (dependencies (entry_task e)))"

definition requiredStart ::
  "taskEntry option \<Rightarrow> real \<Rightarrow> (string \<Rightarrow> real) \<Rightarrow> (string \<Rightarrow> real) \<Rightarrow> string \<Rightarrow> real" where
  "requiredStart taskJ durJ es ef i =
     (let dependency = findDependency taskJ i;
          depType = (case dependency of None \<Rightarrow> FS | Some d \<Rightarrow> type_dep d);
          lag = (case dependency of None \<Rightarrow> 0 | Some d \<Rightarrow> lag d);
          esI = es i;
          efI = ef i
      in case depType of
           FS \<Rightarrow> efI + lag
         | SS \<Rightarrow> esI + lag
         | FF \<Rightarrow> efI + lag - durJ
         | SF \<Rightarrow> esI + lag - durJ
         | OtherType \<Rightarrow> efI + lag)"

text \<open>The callback of \<open>topoOrder.forEach\<close> in the forward pass.\<close>

definition forwardStep ::
  "(string \<rightharpoonup> taskEntry) \<Rightarrow> graph \<Rightarrow> string \<Rightarrow>
   (string \<Rightarrow> real) \<times> (string \<Rightarrow> real) \<Rightarrow> (string \<Rightarrow> real) \<times> (string \<Rightarrow> real)" where
  "forwardStep tm G j s =
     (case s of (es, ef) \<Rightarrow>
        if j = START then (es, ef)
        else
          let taskJ = tm j;
              durJ = (if j = END then 0 else durationOf taskJ);
              earliestStartJ =
                (case map_of (revAdj G) j of
                   None \<Rightarrow> 0
                 | Some preds \<Rightarrow>
                     fold (\<lambda>i earliestStartJ. max earliestStartJ (requiredStart taskJ durJ es ef i))
                          preds 0)
          in (es(j := earliestStartJ), ef(j := earliestStartJ + durJ)))"

definition forwardPass ::
  "(string \<rightharpoonup> taskEntry) \<Rightarrow> graph \<Rightarrow> string list \<Rightarrow> (string \<Rightarrow> real) \<times> (string \<Rightarrow> real)" where
  "forwardPass tm G topoOrder = fold (forwardStep tm G) topoOrder (\<lambda>node. 0, \<lambda>node. 0)"

definition requiredFinish ::
  "(string \<rightharpoonup> taskEntry) \<Rightarrow> real \<Rightarrow> (string \<Rightarrow> real) \<Rightarrow> (string \<Rightarrow> real) \<Rightarrow> string \<Rightarrow> string \<Rightarrow> real" where
  "requiredFinish tm durI ls lf i j =
     (let taskJ = tm j;
          dependency = findDependency taskJ i;
          depType = (case dependency of None \<Rightarrow> FS | Some d \<Rightarrow> type_dep d);
          lag = (case dependency of None \<Rightarrow> 0 | Some d \<Rightarrow> lag d);
          lsJ = ls j;
          lfJ = lf j
      in case depType of
           FS \<Rightarrow> lsJ - lag
         | SS \<Rightarrow> lsJ - lag + durI
         | FF \<Rightarrow> lfJ - lag
         | SF \<Rightarrow> lfJ - lag + durI
         | OtherType \<Rightarrow> lsJ - lag)"

text \<open>The callback of \<open>[...topoOrder].reverse().forEach\<close> in the backward pass.\<close>

definition backwardStep ::
  "(string \<rightharpoonup> taskEntry) \<Rightarrow> graph \<Rightarrow> real \<Rightarrow> string \<Rightarrow>
   (string \<Rightarrow> real) \<times> (string \<Rightarrow> real) \<Rightarrow> (string \<Rightarrow> real) \<times> (string \<Rightarrow> real)" where
  "backwardStep tm G totalDuration i s =
     (case s of (ls, lf) \<Rightarrow>
        if i = END then (ls, lf)
        else
          let taskI = tm i;
              durI = (if i = START then 0 else durationOf taskI);
              latestFinishI =
                (case map_of (adj G) i of
                   None \<Rightarrow> totalDuration
                 | Some succs \<Rightarrow>
                     fold (\<lambda>j latestFinishI. min latestFinishI (requiredFinish tm durI ls lf i j))
                          succs totalDuration)
          in (ls(i := latestFinishI - durI), lf(i := latestFinishI)))"

definition backwardPass ::
  "(string \<rightharpoonup> taskEntry) \<Rightarrow> graph \<Rightarrow> real \<Rightarrow> string list \<Rightarrow> (string \<Rightarrow> real) \<times> (string \<Rightarrow> real)" where
  "backwardPass tm G totalDuration topoOrder =
     fold (backwardStep tm G totalDuration) (rev topoOrder)
          (\<lambda>node. totalDuration, \<lambda>node. totalDuration)"

subsection \<open>\<open>calculateCPM\<close>\<close>

text \<open>All the times the scheduler computes, for a given topological order.\<close>

record cpmTimes =
  es :: "string \<Rightarrow> real"
  ef :: "string \<Rightarrow> real"
  ls :: "string \<Rightarrow> real"
  lf :: "string \<Rightarrow> real"

definition cpmTimes :: "task list \<Rightarrow> real list \<Rightarrow> cpmTimes" where
  "cpmTimes tasks runDurations =
     (let tm = taskMap tasks runDurations;
          G = buildGraph tasks;
          topoOrder = topoSort G;
          (es, ef) = forwardPass tm G topoOrder;
          totalDuration = ef END;
          (ls, lf) = backwardPass tm G totalDuration topoOrder
      in \<lparr>es = es, ef = ef, ls = ls, lf = lf\<rparr>)"

record taskTiming =
  es_t :: real
  ef_t :: real

record cpmResult =
  totalDuration :: real
  criticalPathTasks :: "string list"
  taskTimings :: "string \<rightharpoonup> taskTiming"

text \<open>The test of the critical-path loop, for one task id.\<close>

definition isCritical :: "cpmTimes \<Rightarrow> string \<Rightarrow> bool" where
  "isCritical T k =
     (let esVal = es T k;
          lsVal = ls T k;
          efVal = ef T k;
          projectFinish = ef T END;
          currentSlack = lsVal - esVal
      in \<bar>currentSlack\<bar> < MIN_SLACK_TOLERANCE \<or> \<bar>efVal - projectFinish\<bar> < MIN_SLACK_TOLERANCE)"

text \<open>\<open>None\<close> is the \<open>return null\<close> after "Cycle detected!".\<close>

definition calculateCPM :: "task list \<Rightarrow> real list \<Rightarrow> cpmResult option" where
  "calculateCPM tasks runDurations =
     (let G = buildGraph tasks;
          topoOrder = topoSort G
      in if length topoOrder \<noteq> length (nodes G) then None
         else
           let T = cpmTimes tasks runDurations
           in Some \<lparr>totalDuration = ef T END,
                    criticalPathTasks =
                      fold (\<lambda>task cs. if isCritical T (id_task task) then set_add (id_task task) cs else cs)
                           tasks [],
                    taskTimings =
                      fold (\<lambda>task m. m(id_task task \<mapsto> \<lparr>es_t = es T (id_task task), ef_t = ef T (id_task task)\<rparr>))
                           tasks Map.empty\<rparr>)"

subsection \<open>Names for the quantities of one step\<close>

text \<open>\<open>durJ\<close> of the forward pass and \<open>durI\<close> of the backward pass: the sampled duration clamped at 0.\<close>

definition durJ :: "(string \<rightharpoonup> taskEntry) \<Rightarrow> string \<Rightarrow> real" where
  "durJ tm j = (if j = END then 0 else durationOf (tm j))"

definition durI :: "(string \<rightharpoonup> taskEntry) \<Rightarrow> string \<Rightarrow> real" where
  "durI tm i = (if i = START then 0 else durationOf (tm i))"

text \<open>\<open>earliestStartJ\<close> after the loop over \<open>revAdj.get(j)\<close>, from the current \<open>es\<close> and \<open>ef\<close>.\<close>

definition earliestStartJ ::
  "(string \<rightharpoonup> taskEntry) \<Rightarrow> graph \<Rightarrow> (string \<Rightarrow> real) \<Rightarrow> (string \<Rightarrow> real) \<Rightarrow> string \<Rightarrow> real" where
  "earliestStartJ tm G es0 ef0 j =
     (case map_of (revAdj G) j of
        None \<Rightarrow> 0
      | Some preds \<Rightarrow>
          fold (\<lambda>i acc. max acc (requiredStart (tm j) (durJ tm j) es0 ef0 i)) preds 0)"

text \<open>\<open>latestFinishI\<close> after the loop over \<open>adj.get(i)\<close>, from the current \<open>ls\<close> and \<open>lf\<close>.\<close>

definition latestFinishI ::
  "(string \<rightharpoonup> taskEntry) \<Rightarrow> graph \<Rightarrow> real \<Rightarrow> (string \<Rightarrow> real) \<Rightarrow> (string \<Rightarrow> real) \<Rightarrow> string \<Rightarrow> real" where
  "latestFinishI tm G tot ls0 lf0 i =
     (case map_of (adj G) i of
        None \<Rightarrow> tot
      | Some succs \<Rightarrow>
          fold (\<lambda>j acc. min acc (requiredFinish tm (durI tm i) ls0 lf0 i j)) succs tot)"

text \<open>The invariants of the two passes.\<close>

definition forwardOk :: "(string \<Rightarrow> real) \<times> (string \<Rightarrow> real) \<Rightarrow> bool" where
  "forwardOk s = (\<forall>node. 0 \<le> fst s node \<and> fst s node \<le> snd s node)"

definition backwardOk :: "(string \<Rightarrow> real) \<times> (string \<Rightarrow> real) \<Rightarrow> bool" where
  "backwardOk s = (\<forall>node. fst s node \<le> snd s node)"

subsection \<open>Notions for reasoning about the graph\<close>

text \<open>The successor list and the predecessor list of a node (empty for a key that is absent).\<close>

definition succs :: "graph \<Rightarrow> string \<Rightarrow> string list" where
  "succs G u = (case map_of (adj G) u of None \<Rightarrow> [] | Some vs \<Rightarrow> vs)"

definition preds :: "graph \<Rightarrow> string \<Rightarrow> string list" where
  "preds G v = (case map_of (revAdj G) v of None \<Rightarrow> [] | Some us \<Rightarrow> us)"

text \<open>
  What \<open>calculateCPM\<close> establishes when it builds the graph: the node list has no
  duplicates, the keys of \<open>adj\<close> and all successors are nodes, and \<open>revAdj\<close> holds the
  same edges as \<open>adj\<close>, with their multiplicity.
\<close>

definition wfGraph :: "graph \<Rightarrow> bool" where
  "wfGraph G =
     (distinct (nodes G) \<and> distinct (map fst (adj G)) \<and>
      fst ` set (adj G) \<subseteq> set (nodes G) \<and>
      (\<forall>u. set (succs G u) \<subseteq> set (nodes G)) \<and>
      (\<forall>u v. count_list (succs G u) v = count_list (preds G v) u))"

text \<open>The number of edges into \<open>v\<close> from nodes that are not yet in the order.\<close>

definition remaining :: "graph \<Rightarrow> string list \<Rightarrow> string \<Rightarrow> int" where
  "remaining G topoOrder v =
     (\<Sum>u \<in> set (nodes G) - set topoOrder. int (count_list (succs G u) v))"

text \<open>Every predecessor of an element of the list stands before it.\<close>

definition topoOrdered :: "graph \<Rightarrow> string list \<Rightarrow> bool" where
  "topoOrdered G topoOrder =
     (\<forall>i < length topoOrder. \<forall>u. topoOrder ! i \<in> set (succs G u) \<longrightarrow> u \<in> set (take i topoOrder))"

text \<open>The invariant of the \<open>while\<close> loop of the topological sort.\<close>

definition kahnInv :: "graph \<Rightarrow> (string, int) jsmap \<Rightarrow> string list \<Rightarrow> string list \<Rightarrow> bool" where
  "kahnInv G inDegree queue topoOrder =
     (distinct (topoOrder @ queue) \<and> set (topoOrder @ queue) \<subseteq> set (nodes G) \<and>
      (\<forall>v. map_of inDegree v =
             (if v \<in> set (nodes G) then Some (remaining G topoOrder v) else None)) \<and>
      (\<forall>v \<in> set (nodes G). v \<in> set (topoOrder @ queue) \<longleftrightarrow> remaining G topoOrder v = 0) \<and>
      topoOrdered G topoOrder)"

text \<open>
  The invariant of the loops that add the edges: the graph is well formed, the keys of
  \<open>adj\<close> are \<open>KA\<close>, the keys of \<open>revAdj\<close> are \<open>KR\<close>, and every successor is a key of \<open>revAdj\<close>.
\<close>

definition graphInv :: "string set \<Rightarrow> string set \<Rightarrow> graph \<Rightarrow> bool" where
  "graphInv KA KR G =
     (wfGraph G \<and> fst ` set (adj G) = KA \<and> fst ` set (revAdj G) = KR \<and>
      KR \<subseteq> set (nodes G) \<and> distinct (map fst (revAdj G)) \<and>
      (\<forall>u. set (succs G u) \<subseteq> KR))"

section \<open>The Monte Carlo engine (\<open>runMonteCarloSimulation\<close>, App.js)\<close>

subsection \<open>Sampling one trial\<close>

text \<open>
  The \<open>switch (distType)\<close> inside \<open>try { ... } catch (e) { ...; return 0; }\<close>: a sampler that
  throws gives the duration 0. \<open>None\<close>: the sampler does not return.
\<close>

definition sampleDuration :: "('g, 'r) random_scheme \<Rightarrow> task \<Rightarrow> 'g \<Rightarrow> (real \<times> 'g) option" where
  "sampleDuration R task g =
     (case distType task of
        Normal \<Rightarrow> randomNormal R (mean (normalParams task)) (stdDev (normalParams task)) g
      | LogNormal \<Rightarrow> randomLogNormal R (mu (logNormalParams task)) (sigma (logNormalParams task)) g
      | PERT \<Rightarrow>
          (case randomPERT R (min_est (duration task)) (likely (duration task))
                  (max_est (duration task)) 4 g of
             (Inl e, g') \<Rightarrow> Some (0, g')
           | (Inr x, g') \<Rightarrow> Some (x, g'))
      | Triangular \<Rightarrow>
          Some (randomTriangular R (min_est (duration task)) (likely (duration task))
                  (max_est (duration task)) g)
      | OtherDist \<Rightarrow>
          Some (randomTriangular R (min_est (duration task)) (likely (duration task))
                  (max_est (duration task)) g))"

text \<open>\<open>const runDurations = tasks.map(task => ...)\<close>, the generator threaded left to right.\<close>

fun runDurations :: "('g, 'r) random_scheme \<Rightarrow> task list \<Rightarrow> 'g \<Rightarrow> (real list \<times> 'g) option" where
  "runDurations R [] g = Some ([], g)"
| "runDurations R (task # tasks) g =
     (case sampleDuration R task g of
        None \<Rightarrow> None
      | Some (d, g1) \<Rightarrow>
          (case runDurations R tasks g1 of
             None \<Rightarrow> None
           | Some (ds, g2) \<Rightarrow> Some (d # ds, g2)))"

fun runCosts :: "('g, 'r) random_scheme \<Rightarrow> task list \<Rightarrow> 'g \<Rightarrow> real list \<times> 'g" where
  "runCosts R [] g = ([], g)"
| "runCosts R (task # tasks) g =
     (case randomTriangular R (min_est (cost task)) (likely (cost task)) (max_est (cost task)) g of
        (c, g1) \<Rightarrow> (case runCosts R tasks g1 of (cs, g2) \<Rightarrow> (c # cs, g2)))"

subsection \<open>The accumulators and one trial\<close>

record simulationRun =
  run_totalDuration :: real
  totalCost :: real
  run_criticalPathTasks :: "string list"

record timingSamples =
  starts :: "real list"
  finishes :: "real list"

record accumulators =
  acc_simulationRuns :: "simulationRun list"
  acc_allTaskTimings :: "string \<rightharpoonup> timingSamples"
  acc_taskDurationSamples :: "real list list"
  acc_taskCostSamples :: "real list list"
  criticalCounts :: "int list"

definition initAccumulators :: "task list \<Rightarrow> accumulators" where
  "initAccumulators tasks =
     \<lparr>acc_simulationRuns = [],
      acc_allTaskTimings =
        fold (\<lambda>task acc. acc(id_task task \<mapsto> \<lparr>starts = [], finishes = []\<rparr>)) tasks Map.empty,
      acc_taskDurationSamples = map (\<lambda>task. []) tasks,
      acc_taskCostSamples = map (\<lambda>task. []) tasks,
      criticalCounts = map (\<lambda>task. 0) tasks\<rparr>"

text \<open>\<open>tasks.forEach((_, idx) => { samples[idx].push(values[idx]); })\<close>\<close>

definition pushSamples :: "task list \<Rightarrow> real list \<Rightarrow> real list list \<Rightarrow> real list list" where
  "pushSamples tasks values samples =
     fold (\<lambda>idx samples. samples[idx := samples ! idx @ [values ! idx]]) [0..<length tasks] samples"

text \<open>\<open>tasks.forEach((_, idx) => { samples[idx].pop(); })\<close>\<close>

definition popSamples :: "task list \<Rightarrow> real list list \<Rightarrow> real list list" where
  "popSamples tasks samples =
     fold (\<lambda>idx samples. samples[idx := butlast (samples ! idx)]) [0..<length tasks] samples"

definition countCritical :: "task list \<Rightarrow> string list \<Rightarrow> int list \<Rightarrow> int list" where
  "countCritical tasks critical counts =
     fold (\<lambda>(idx, task) counts.
             if id_task task \<in> set critical then counts[idx := counts ! idx + 1] else counts)
          (enumerate 0 tasks) counts"

definition recordTimings ::
  "task list \<Rightarrow> (string \<rightharpoonup> taskTiming) \<Rightarrow> (string \<rightharpoonup> timingSamples) \<Rightarrow> (string \<rightharpoonup> timingSamples)" where
  "recordTimings tasks timings allTimings =
     fold (\<lambda>task all.
             case (all (id_task task), timings (id_task task)) of
               (Some s, Some t) \<Rightarrow>
                 all(id_task task \<mapsto> \<lparr>starts = starts s @ [es_t t], finishes = finishes s @ [ef_t t]\<rparr>)
             | _ \<Rightarrow> all)
          tasks allTimings"

text \<open>The body of the \<open>for\<close> loop.\<close>

definition trial ::
  "('g, 'r) random_scheme \<Rightarrow> task list \<Rightarrow> accumulators \<Rightarrow> 'g \<Rightarrow> (accumulators \<times> 'g) option" where
  "trial R tasks acc g =
     (case runDurations R tasks g of
        None \<Rightarrow> None
      | Some (ds, g1) \<Rightarrow>
          (case runCosts R tasks g1 of
             (cs, g2) \<Rightarrow>
               let acc1 = acc\<lparr>acc_taskDurationSamples := pushSamples tasks ds (acc_taskDurationSamples acc),
                              acc_taskCostSamples := pushSamples tasks cs (acc_taskCostSamples acc)\<rparr>
               in (case calculateCPM tasks ds of
                    Some cpmResult \<Rightarrow>
                      Some (acc1\<lparr>acc_simulationRuns :=
                                   acc_simulationRuns acc1 @
                                   [\<lparr>run_totalDuration = totalDuration cpmResult,
                                     totalCost = fold (\<lambda>c s. s + c) cs 0,
                                     run_criticalPathTasks = criticalPathTasks cpmResult\<rparr>],
                                 criticalCounts :=
                                   countCritical tasks (criticalPathTasks cpmResult) (criticalCounts acc1),
                                 acc_allTaskTimings :=
                                   recordTimings tasks (taskTimings cpmResult) (acc_allTaskTimings acc1)\<rparr>,
                            g2)
                  | None \<Rightarrow>
                      Some (acc1\<lparr>acc_taskDurationSamples := popSamples tasks (acc_taskDurationSamples acc1),
                                 acc_taskCostSamples := popSamples tasks (acc_taskCostSamples acc1)\<rparr>,
                            g2))))"

text \<open>\<open>for (let i = 0; i < numRuns; i++)\<close>; the argument counts the rounds that remain.\<close>

primrec mcLoop ::
  "('g, 'r) random_scheme \<Rightarrow> task list \<Rightarrow> nat \<Rightarrow> accumulators \<Rightarrow> 'g \<Rightarrow> (accumulators \<times> 'g) option" where
  "mcLoop R tasks 0 acc g = Some (acc, g)"
| "mcLoop R tasks (Suc n) acc g =
     (case trial R tasks acc g of
        None \<Rightarrow> None
      | Some (acc', g') \<Rightarrow> mcLoop R tasks n acc' g')"

subsection \<open>The analysis and the result\<close>

record analysis =
  meanDuration :: real
  stdDevDuration :: real
  meanCost :: real
  stdDevCost :: real
  percentilesDuration :: "real \<rightharpoonup> real option"
  percentilesCost :: "real \<rightharpoonup> real option"
  durationSensitivity :: "real list"
  costSensitivity :: "real list"
  criticalityIndex :: "real list"
  scheduleSensitivityIndexProject :: real
  scheduleSensitivityIndexTask :: "real list"
  durationCruciality :: "real list"

record mcResult =
  simulationRuns :: "simulationRun list"
  analysis :: "analysis option"
  taskDurationSamples :: "real list list"
  taskCostSamples :: "real list list"
  allTaskTimings :: "string \<rightharpoonup> timingSamples"

text \<open>\<open>samples[idx] || []\<close>\<close>

definition samplesAt :: "real list list \<Rightarrow> nat \<Rightarrow> real list" where
  "samplesAt samples idx = (if idx < length samples then samples ! idx else [])"

text \<open>\<open>values[idx] || 0\<close>\<close>

definition valueAt :: "real list \<Rightarrow> nat \<Rightarrow> real" where
  "valueAt values idx = (if idx < length values then values ! idx else 0)"

definition buildAnalysis :: "task list \<Rightarrow> accumulators \<Rightarrow> analysis" where
  "buildAnalysis tasks acc =
     (let validRuns = real (length (acc_simulationRuns acc));
          totalDurations = map run_totalDuration (acc_simulationRuns acc);
          totalCosts = map totalCost (acc_simulationRuns acc);
          meanDuration' = fold (\<lambda>b a. a + b) totalDurations 0 / validRuns;
          stdDevDuration' =
            sqrt (fold (\<lambda>val acc. acc + (val - meanDuration') ^ 2) totalDurations 0 / validRuns);
          meanCost' = fold (\<lambda>b a. a + b) totalCosts 0 / validRuns;
          stdDevCost' = sqrt (fold (\<lambda>val acc. acc + (val - meanCost') ^ 2) totalCosts 0 / validRuns);
          durationSensitivity' =
            map (\<lambda>idx. pearsonCorrelation (samplesAt (acc_taskDurationSamples acc) idx) totalDurations)
                [0..<length tasks];
          costSensitivity' =
            map (\<lambda>idx. pearsonCorrelation (samplesAt (acc_taskCostSamples acc) idx) totalCosts)
                [0..<length tasks];
          criticalityIndex' = map (\<lambda>count. real_of_int count / validRuns) (criticalCounts acc);
          scheduleSensitivityIndexTask' =
            map (\<lambda>idx. valueAt criticalityIndex' idx * valueAt durationSensitivity' idx)
                [0..<length tasks]
      in \<lparr>meanDuration = meanDuration',
          stdDevDuration = stdDevDuration',
          meanCost = meanCost',
          stdDevCost = stdDevCost',
          percentilesDuration = getPercentiles totalDurations [10, 25, 50, 75, 80, 90, 95],
          percentilesCost = getPercentiles totalCosts [10, 25, 50, 75, 80, 90, 95],
          durationSensitivity = durationSensitivity',
          costSensitivity = costSensitivity',
          criticalityIndex = criticalityIndex',
          scheduleSensitivityIndexProject =
            (if meanDuration' > 0 then stdDevDuration' / meanDuration' else 0),
          scheduleSensitivityIndexTask = scheduleSensitivityIndexTask',
          durationCruciality = scheduleSensitivityIndexTask'\<rparr>)"

text \<open>The code after the loop: the empty result when no run is valid, the analysis otherwise.\<close>

definition finishSimulation :: "task list \<Rightarrow> accumulators \<Rightarrow> mcResult" where
  "finishSimulation tasks acc =
     (let validRuns = length (acc_simulationRuns acc)
      in if validRuns = 0 then
           \<lparr>simulationRuns = [], analysis = None, taskDurationSamples = [],
            taskCostSamples = [], allTaskTimings = Map.empty\<rparr>
         else
           \<lparr>simulationRuns = acc_simulationRuns acc,
            analysis = Some (buildAnalysis tasks acc),
            taskDurationSamples = acc_taskDurationSamples acc,
            taskCostSamples = acc_taskCostSamples acc,
            allTaskTimings = acc_allTaskTimings acc\<rparr>)"

definition runMonteCarloSimulation ::
  "('g, 'r) random_scheme \<Rightarrow> task list \<Rightarrow> nat \<Rightarrow> 'g \<Rightarrow> (mcResult \<times> 'g) option" where
  "runMonteCarloSimulation R tasks numRuns g =
     (case mcLoop R tasks numRuns (initAccumulators tasks) g of
        None \<Rightarrow> None
      | Some (acc, g') \<Rightarrow> Some (finishSimulation tasks acc, g'))"

section \<open>Starting a batch (\<open>runSimulation\<close>, App.js)\<close>

text \<open>
  \<open>runSimulation\<close> reports through the component's state: an error message, or the
  results. \<open>new Map(tasks.map(t => [t.id, t]))\<close>: the last task with an id is the one
  that \<open>get\<close> returns.
\<close>

datatype simError =
  NoTasks
| DirectCycle string string
| CycleDetected
| NoValidResults

datatype outcome = Failed simError | Succeeded mcResult

definition tasksById :: "task list \<Rightarrow> (string \<rightharpoonup> task)" where
  "tasksById tasks = map_of (rev (map (\<lambda>t. (id_task t, t)) tasks))"

text \<open>The inner \<open>for (const dep of task.dependencies)\<close>: the first predecessor that depends back.\<close>

fun dependsBack :: "(string \<rightharpoonup> task) \<Rightarrow> task \<Rightarrow> dependency list \<Rightarrow> task option" where
  "dependsBack tm task [] = None"
| "dependsBack tm task (dep # deps) =
     (case tm (predecessorId dep) of
        None \<Rightarrow> dependsBack tm task deps
      | Some predecessor \<Rightarrow>
          if list_ex (\<lambda>pDep. predecessorId pDep = id_task task) (dependencies predecessor)
          then Some predecessor
          else dependsBack tm task deps)"

text \<open>The outer \<open>for (const task of tasks)\<close>.\<close>

fun directCycle :: "(string \<rightharpoonup> task) \<Rightarrow> task list \<Rightarrow> (task \<times> task) option" where
  "directCycle tm [] = None"
| "directCycle tm (task # tasks) =
     (case dependsBack tm task (dependencies task) of
        Some predecessor \<Rightarrow> Some (task, predecessor)
      | None \<Rightarrow> directCycle tm tasks)"

text \<open>
  The callback passed to \<open>setTimeout\<close> runs after the checks; the model runs it in
  sequence. \<open>simRuns\<close> is an array in every result of \<open>runMonteCarloSimulation\<close>, so the
  branch \<open>simRuns === null\<close> (\<open>CycleDetected\<close>) is never taken.
\<close>

definition runSimulation ::
  "('g, 'r) random_scheme \<Rightarrow> task list \<Rightarrow> nat \<Rightarrow> 'g \<Rightarrow> (outcome \<times> 'g) option" where
  "runSimulation R tasks numRuns g =
     (if tasks = [] then Some (Failed NoTasks, g)
      else
        case directCycle (tasksById tasks) tasks of
          Some (task, predecessor) \<Rightarrow> Some (Failed (DirectCycle (name task) (name predecessor)), g)
        | None \<Rightarrow>
            (case runMonteCarloSimulation R tasks numRuns g of
               None \<Rightarrow> None
             | Some (result, g') \<Rightarrow>
                 if simulationRuns result \<noteq> [] \<and> analysis result \<noteq> None
                 then Some (Succeeded result, g')
                 else Some (Failed NoValidResults, g')))"

section \<open>Notions for reasoning about a batch\<close>

text \<open>
  The test that decides between \<open>return null\<close> and a schedule: it reads the tasks only,
  not the sampled durations.
\<close>

definition schedulable :: "task list \<Rightarrow> bool" where
  "schedulable tasks =
     (length (topoSort (buildGraph tasks)) = length (nodes (buildGraph tasks)))"

text \<open>
  The invariant of the \<open>for\<close> loop: every per-task sequence of duration and cost samples
  is as long as the list of valid runs.
\<close>

definition samplesInv :: "task list \<Rightarrow> accumulators \<Rightarrow> bool" where
  "samplesInv tasks acc =
     (length (acc_taskDurationSamples acc) = length tasks \<and>
      length (acc_taskCostSamples acc) = length tasks \<and>
      (\<forall>idx < length tasks.
         length (acc_taskDurationSamples acc ! idx) = length (acc_simulationRuns acc) \<and>
         length (acc_taskCostSamples acc ! idx) = length (acc_simulationRuns acc)))"

text \<open>The same for the sequences of earliest starts and earliest finishes of every task.\<close>

definition timingsInv :: "task list \<Rightarrow> accumulators \<Rightarrow> bool" where
  "timingsInv tasks acc =
     (\<forall>t \<in> set tasks.
        \<exists>s. acc_allTaskTimings acc (id_task t) = Some s \<and>
            length (starts s) = length (acc_simulationRuns acc) \<and>
            length (finishes s) = length (acc_simulationRuns acc))"

text \<open>
  The generator's state after \<open>k\<close> uniform draws. A generator is productive when, from
  every state, some later draw is not 0: the loops \<open>while (u === 0)\<close> of the Normal
  sampler end exactly for such a generator.
\<close>

primrec drawsAfter :: "('g, 'r) random_scheme \<Rightarrow> nat \<Rightarrow> 'g \<Rightarrow> 'g" where
  "drawsAfter R 0 g = g"
| "drawsAfter R (Suc k) g = drawsAfter R k (snd (realZeroToOneExclusive R g))"

definition productive :: "('g, 'r) random_scheme \<Rightarrow> bool" where
  "productive R = (\<forall>g. \<exists>k. fst (realZeroToOneExclusive R (drawsAfter R k g)) \<noteq> 0)"

text \<open>The result that \<open>runMonteCarloSimulation\<close> returns when no run is valid.\<close>

definition emptyResult :: mcResult where
  "emptyResult =
     \<lparr>simulationRuns = [], analysis = None, taskDurationSamples = [],
      taskCostSamples = [], allTaskTimings = Map.empty\<rparr>"

section \<open>Example inputs\<close>

text \<open>A task with the deterministic duration \<open>d\<close> (Triangular(d, d, d)) and cost 0.\<close>

definition exampleTask :: "string \<Rightarrow> real \<Rightarrow> dependency list \<Rightarrow> task" where
  "exampleTask k d deps =
     \<lparr>id_task = k, name = k, wbs = k, distType = Triangular,
      duration = \<lparr>min_est = d, likely = d, max_est = d\<rparr>,
      normalParams = \<lparr>mean = 0, stdDev = 0\<rparr>,
      logNormalParams = \<lparr>mu = 0, sigma = 0\<rparr>,
      cost = \<lparr>min_est = 0, likely = 0, max_est = 0\<rparr>,
      dependencies = deps\<rparr>"

text \<open>
  A chain with a lead: A (2), then B (10) finish-to-start after A, then D (2)
  finish-to-start after B with lag \<open>-13\<close>.
\<close>

definition leadExample :: "task list" where
  "leadExample =
     [exampleTask ''A'' 2 [],
      exampleTask ''B'' 10 [\<lparr>predecessorId = ''A'', type_dep = FS, lag = 0\<rparr>],
      exampleTask ''D'' 2 [\<lparr>predecessorId = ''B'', type_dep = FS, lag = - 13\<rparr>]]"

text \<open>One task; the examples schedule it with the sampled duration \<open>-3\<close>.\<close>

definition singleExample :: "task list" where
  "singleExample = [exampleTask ''A'' 0 []]"

text \<open>Two tasks that depend on each other.\<close>

definition cycleExample :: "task list" where
  "cycleExample =
     [exampleTask ''A'' 1 [\<lparr>predecessorId = ''B'', type_dep = FS, lag = 0\<rparr>],
      exampleTask ''B'' 1 [\<lparr>predecessorId = ''A'', type_dep = FS, lag = 0\<rparr>]]"

text \<open>The same two tasks with Normal(5, 1) durations.\<close>

definition normalCycleExample :: "task list" where
  "normalCycleExample =
     map (\<lambda>t. t\<lparr>distType := Normal, normalParams := \<lparr>mean = 5, stdDev = 1\<rparr>\<rparr>) cycleExample"

text \<open>Three tasks that depend on each other in a ring.\<close>

definition ringExample :: "task list" where
  "ringExample =
     [exampleTask ''A'' 1 [\<lparr>predecessorId = ''C'', type_dep = FS, lag = 0\<rparr>],
      exampleTask ''B'' 1 [\<lparr>predecessorId = ''A'', type_dep = FS, lag = 0\<rparr>],
      exampleTask ''C'' 1 [\<lparr>predecessorId = ''B'', type_dep = FS, lag = 0\<rparr>]]"

text \<open>
  One task whose duration is the double nearest to \<open>0.1\<close> in every run
  (Triangular(0.1, 0.1, 0.1)).
\<close>

definition tenthExample :: "task list" where
  "tenthExample = [exampleTask ''A'' (3602879701896397 / 2 ^ 55) []]"
section \<open>Properties of the statistics\<close>

subsection \<open>Percentiles\<close>

lemma interp_clamp:
  fixes rank :: real and s :: "real list"
  assumes npos: "0 < n"
  shows "(if \<lceil>rank\<rceil> \<ge> int n then s ! nat (int n - 1)
          else if \<lfloor>rank\<rfloor> < 0 then s ! 0
          else s ! nat \<lfloor>rank\<rfloor> * (1 - (rank - real_of_int \<lfloor>rank\<rfloor>))
               + s ! nat \<lceil>rank\<rceil> * (rank - real_of_int \<lfloor>rank\<rfloor>))
       = (if rank \<le> 0 then s ! 0
          else if rank \<ge> real n - 1 then s ! (n - 1)
          else s ! nat \<lfloor>rank\<rfloor> * (1 - (rank - real_of_int \<lfloor>rank\<rfloor>))
               + s ! nat \<lceil>rank\<rceil> * (rank - real_of_int \<lfloor>rank\<rfloor>))"
proof -
  have last: "nat (int n - 1) = n - 1" using npos by simp
  consider "rank < 0" | "rank = 0" | "0 < rank" "rank < real n - 1"
    | "0 < rank" "rank = real n - 1" | "rank > real n - 1" "0 < rank"
    by linarith
  then show ?thesis
  proof cases
    case 1
    then have "\<lfloor>rank\<rfloor> < 0" "\<not> \<lceil>rank\<rceil> \<ge> int n" using npos
      by (simp_all add: floor_less_iff not_le ceiling_less_iff)
    then show ?thesis using 1 by simp
  next
    case 2
    then show ?thesis using npos by simp
  next
    case 3
    then have "\<not> \<lfloor>rank\<rfloor> < 0" "\<not> \<lceil>rank\<rceil> \<ge> int n"
      by (simp_all add: floor_less_iff not_le ceiling_less_iff)
    then show ?thesis using 3 by simp
  next
    case 4
    then have "rank = real_of_int (int n - 1)" by simp
    then have fl: "\<lfloor>rank\<rfloor> = int n - 1" and ce: "\<lceil>rank\<rceil> = int n - 1"
      by (simp_all only: floor_of_int ceiling_of_int)
    have w: "rank - real_of_int (int n - 1) = 0" using 4 by simp
    have lhs: "(if \<lceil>rank\<rceil> \<ge> int n then s ! nat (int n - 1)
          else if \<lfloor>rank\<rfloor> < 0 then s ! 0
          else s ! nat \<lfloor>rank\<rfloor> * (1 - (rank - real_of_int \<lfloor>rank\<rfloor>))
               + s ! nat \<lceil>rank\<rceil> * (rank - real_of_int \<lfloor>rank\<rfloor>)) = s ! (n - 1)"
      unfolding fl ce w using npos last by simp
    have rhs: "(if rank \<le> 0 then s ! 0
          else if rank \<ge> real n - 1 then s ! (n - 1)
          else s ! nat \<lfloor>rank\<rfloor> * (1 - (rank - real_of_int \<lfloor>rank\<rfloor>))
               + s ! nat \<lceil>rank\<rceil> * (rank - real_of_int \<lfloor>rank\<rfloor>)) = s ! (n - 1)"
      using 4 by simp
    show ?thesis unfolding lhs rhs ..
  next
    case 5
    then have "\<lceil>rank\<rceil> \<ge> int n" by (simp add: le_ceiling_iff)
    then show ?thesis using 5 last by simp
  qed
qed

lemma percentileAt_spec:
  assumes "data \<noteq> []"
  shows "percentileAt (sort data) p = Percentile_spec data p"
proof -
  have npos: "0 < length (sort data)" using assms by simp
  have r: "real_of_int (int (length (sort data))) = real (length (sort data))" by simp
  show ?thesis
    unfolding percentileAt_def Percentile_spec_def Let_def r
    by (rule interp_clamp [OF npos])
qed

lemma percentile_50_of_1_to_10: "getPercentiles [1, 2, 3, 4, 5, 6, 7, 8, 9, 10] [50] 50 = Some (Some (11 / 2))"
  by (simp add: getPercentiles_def percentileAt_def Let_def)

text \<open>
  Claim C8. On non-empty data, \<open>getPercentiles\<close> gives for every requested percentile
  \<open>p\<close> the value the specification describes: the data sorted ascending, the rank
  \<open>(p/100)\<cdot>(n-1)\<close>, linear interpolation between the floor and the ceiling index weighted
  by the fractional part, the first and the last element at the boundaries. The percentile
  50 of \<open>[1, 2, ..., 10]\<close> is 5.5.
\<close>

theorem C8_getPercentiles_interpolates: "(data \<noteq> [] \<longrightarrow> p \<in> set percentiles \<longrightarrow>
      getPercentiles data percentiles p = Some (Some (Percentile_spec data p)))
   \<and> getPercentiles [1, 2, 3, 4, 5, 6, 7, 8, 9, 10] [50] 50 = Some (Some (11 / 2))"
proof -
  have "getPercentiles data percentiles p = Some (Some (Percentile_spec data p))"
    if "data \<noteq> []" "p \<in> set percentiles"
  proof -
    have "map_of (map (\<lambda>q. (q, Some (percentileAt (sort data) q))) percentiles) p
          = Some (Some (percentileAt (sort data) p))"
      using that(2) by (induction percentiles) auto
    then show ?thesis using that(1) by (simp add: getPercentiles_def percentileAt_spec)
  qed
  then show ?thesis using percentile_50_of_1_to_10 by blast
qed

theorem C8_getPercentiles_interpolates_witness: "getPercentiles [3, 1, 2] [10, 50, 90] 50 = Some (Some 2) \<and> Percentile_spec [3, 1, 2] 50 = 2"
  using C8_getPercentiles_interpolates [of "[3, 1, 2]" 50 "[10, 50, 90]"]
  by (simp add: Percentile_spec_def Let_def)

subsection \<open>Pearson correlation\<close>

lemma pearson_unfold:
  "Pearson_spec x y =
     (if length x \<le> 1 \<or> length x \<noteq> length y then 0
      else if sampleStdDev x = 0 \<or> sampleStdDev y = 0 then 0
      else max (- 1) (min 1 (sum_list (map (\<lambda>(u, v). (u - sampleMean x) * (v - sampleMean y)) (zip x y))
              / ((real (length x) - 1) * sampleStdDev x * sampleStdDev y))))"
  by (auto simp: Pearson_spec_def Let_def)

lemma member_le_sum_list_real:
  fixes ys :: "real list"
  assumes "\<forall>v\<in>set ys. 0 \<le> v" "y \<in> set ys"
  shows "y \<le> sum_list ys"
  using assms
proof (induction ys)
  case Nil
  then show ?case by simp
next
  case (Cons a ys)
  have "0 \<le> sum_list ys" using Cons.prems(1) by (simp add: sum_list_nonneg)
  moreover have "0 \<le> a" using Cons.prems(1) by simp
  ultimately show ?case using Cons by (cases "y = a") auto
qed

lemma sumSq_nonneg: "0 \<le> sumSq xs"
  unfolding sumSq_def by (rule sum_list_nonneg) auto

lemma sumSq_pos:
  assumes "a \<in> set xs" "b \<in> set xs" "a \<noteq> b"
  shows "0 < sumSq xs"
proof -
  obtain c where c: "c \<in> set xs" "c \<noteq> sampleMean xs"
    using assms by (cases "a = sampleMean xs") auto
  have "(c - sampleMean xs) ^ 2 \<in> set (map (\<lambda>v. (v - sampleMean xs) ^ 2) xs)"
    using c(1) by auto
  then have "(c - sampleMean xs) ^ 2 \<le> sumSq xs"
    unfolding sumSq_def by (intro member_le_sum_list_real) auto
  moreover have "0 < (c - sampleMean xs) ^ 2" using c(2) by simp
  ultimately show ?thesis by linarith
qed

lemma stdDev_sumSq: "sampleStdDev xs = sqrt (sumSq xs / (real (length xs) - 1))"
  by (simp add: sampleStdDev_def sumSq_def)

lemma two_elements_length:
  assumes "a \<in> set xs" "b \<in> set xs" "a \<noteq> b"
  shows "2 \<le> length xs"
proof -
  have "card {a, b} \<le> card (set xs)" using assms by (intro card_mono) auto
  also have "\<dots> \<le> length xs" by (rule card_length)
  finally show ?thesis using assms(3) by simp
qed

lemma stdDev_mult_self:
  assumes "2 \<le> length xs"
  shows "(real (length xs) - 1) * sampleStdDev xs * sampleStdDev xs = sumSq xs"
proof -
  define A where "A = sumSq xs / (real (length xs) - 1)"
  have n: "0 < real (length xs) - 1" using assms by simp
  have "0 \<le> A" unfolding A_def using n sumSq_nonneg [of xs] by simp
  moreover have "sqrt A * sqrt A = \<bar>A\<bar>" by simp
  ultimately have "sampleStdDev xs * sampleStdDev xs = A"
    unfolding stdDev_sumSq A_def [symmetric] by simp
  then have "(real (length xs) - 1) * (sampleStdDev xs * sampleStdDev xs) = sumSq xs"
    using n by (simp add: A_def)
  then show ?thesis by (simp add: mult.assoc)
qed

lemma stdDev_pos:
  assumes "a \<in> set xs" "b \<in> set xs" "a \<noteq> b"
  shows "0 < sampleStdDev xs"
proof -
  have "0 < real (length xs) - 1" using two_elements_length [OF assms] by simp
  then have "0 < sumSq xs / (real (length xs) - 1)" using sumSq_pos [OF assms] by simp
  then show ?thesis unfolding stdDev_sumSq by simp
qed

lemma mean_uminus: "sampleMean (map uminus xs) = - sampleMean xs"
proof -
  have "sum_list (map uminus xs) = - sum_list xs" by (induction xs) simp_all
  then show ?thesis by (simp add: sampleMean_def)
qed

lemma sumSq_uminus: "sumSq (map uminus xs) = sumSq xs"
proof -
  have "(- v + sampleMean xs) ^ 2 = (v - sampleMean xs) ^ 2" for v
    by (simp add: power2_eq_square algebra_simps)
  then show ?thesis by (simp add: sumSq_def mean_uminus comp_def)
qed

lemma stdDev_uminus: "sampleStdDev (map uminus xs) = sampleStdDev xs"
  by (simp add: stdDev_sumSq sumSq_uminus)

lemma numerator_self:
  "sum_list (map (\<lambda>(u, v). (u - sampleMean xs) * (v - sampleMean xs)) (zip xs xs)) = sumSq xs"
  by (simp add: zip_same_conv_map comp_def sumSq_def power2_eq_square)

lemma numerator_uminus:
  "sum_list (map (\<lambda>(u, v). (u - sampleMean xs) * (v - sampleMean (map uminus xs)))
                 (zip xs (map uminus xs))) = - sumSq xs"
proof -
  have z: "zip xs (map uminus xs) = map (\<lambda>u. (u, - u)) xs"
    by (induction xs) simp_all
  have "sum_list (map (\<lambda>u. (u - m) * (- u + m)) xs) = - sum_list (map (\<lambda>u. (u - m) ^ 2) xs)" for m :: real
    by (induction xs) (simp_all add: power2_eq_square algebra_simps)
  then show ?thesis by (simp add: z mean_uminus comp_def sumSq_def)
qed

lemma pearson_self:
  assumes "a \<in> set x" "b \<in> set x" "a \<noteq> b"
  shows "Pearson_spec x x = 1"
proof -
  have len: "2 \<le> length x" by (rule two_elements_length [OF assms])
  have sd: "sampleStdDev x \<noteq> 0" using stdDev_pos [OF assms] by simp
  have S: "sumSq x \<noteq> 0" using sumSq_pos [OF assms] by simp
  show ?thesis using len sd S
    by (simp add: pearson_unfold numerator_self stdDev_mult_self)
qed

lemma pearson_uminus:
  assumes "a \<in> set x" "b \<in> set x" "a \<noteq> b"
  shows "Pearson_spec x (map uminus x) = - 1"
proof -
  have len: "2 \<le> length x" by (rule two_elements_length [OF assms])
  have sd: "sampleStdDev x \<noteq> 0" using stdDev_pos [OF assms] by simp
  have S: "sumSq x \<noteq> 0" using sumSq_pos [OF assms] by simp
  show ?thesis using len sd S
    by (simp add: pearson_unfold numerator_uminus stdDev_uminus stdDev_mult_self)
qed

lemma stdDev_constant:
  assumes "\<forall>v\<in>set c. v = k" "c \<noteq> []"
  shows "sampleStdDev c = 0"
proof -
  have c: "c = replicate (length c) k"
    using assms(1) by (intro replicate_eqI) auto
  have "sum_list (replicate n k) = real n * k" for n
    by (induction n) (simp_all add: algebra_simps)
  then have "sum_list c = real (length c) * k" using c by metis
  then have m: "sampleMean c = k" using assms(2) by (simp add: sampleMean_def)
  have "sum_list (map (\<lambda>v. (v - k) ^ 2) c) = 0" using assms(1) by (induction c) auto
  then have "sumSq c = 0" by (simp add: sumSq_def m)
  then show ?thesis by (simp add: stdDev_sumSq)
qed

lemma pearson_constant:
  assumes "length c = length x" "\<forall>v\<in>set c. v = k"
  shows "Pearson_spec x c = 0"
proof (cases "length x \<le> 1")
  case True
  then show ?thesis by (simp add: pearson_unfold)
next
  case False
  then have "c \<noteq> []" using assms(1) by auto
  then show ?thesis using stdDev_constant [OF assms(2)] by (simp add: pearson_unfold)
qed

lemma pearson_bounds: "- 1 \<le> Pearson_spec x y \<and> Pearson_spec x y \<le> 1"
  by (simp add: pearson_unfold)

text \<open>
  In exact arithmetic the specification's correlation has the properties of the claim:
  it is 0 when \<open>x\<close> has at most one element or a sample standard deviation is 0, it lies
  in \<open>[-1, 1]\<close>, the correlation of a non-constant sequence with itself is 1, with its
  negation \<open>-1\<close>, and with a constant sequence 0.
\<close>

lemma Pearson_spec_properties:
  "(length x \<le> 1 \<longrightarrow> Pearson_spec x y = 0)
   \<and> (sampleStdDev x = 0 \<or> sampleStdDev y = 0 \<longrightarrow> Pearson_spec x y = 0)
   \<and> - 1 \<le> Pearson_spec x y \<and> Pearson_spec x y \<le> 1
   \<and> ((\<exists>a\<in>set x. \<exists>b\<in>set x. a \<noteq> b) \<longrightarrow>
        Pearson_spec x x = 1 \<and> Pearson_spec x (map uminus x) = - 1)
   \<and> (length c = length x \<and> (\<forall>v\<in>set c. v = k) \<longrightarrow> Pearson_spec x c = 0)"
proof -
  have "Pearson_spec x y = 0" if "length x \<le> 1"
    using that by (simp add: pearson_unfold)
  moreover have "Pearson_spec x y = 0" if "sampleStdDev x = 0 \<or> sampleStdDev y = 0"
    using that by (auto simp: pearson_unfold)
  moreover have "Pearson_spec x x = 1 \<and> Pearson_spec x (map uminus x) = - 1"
    if "\<exists>a\<in>set x. \<exists>b\<in>set x. a \<noteq> b"
    using that pearson_self pearson_uminus by blast
  moreover have "Pearson_spec x c = 0" if "length c = length x \<and> (\<forall>v\<in>set c. v = k)"
    using that pearson_constant by blast
  ultimately show ?thesis using pearson_bounds [of x y] by blast
qed

subsection \<open>The code's correlation in double precision\<close>

lemma pearsonCorrelation_short:
  "length x \<le> 1 \<or> length x \<noteq> length y \<Longrightarrow> pearsonCorrelation x y = 0"
  by (auto simp: pearsonCorrelation_def)

lemma pearsonCorrelation_range:
  "- 1 \<le> pearsonCorrelation x y \<and> pearsonCorrelation x y \<le> 1"
  by (simp add: pearsonCorrelation_def Let_def)

lemma roundHalfEven_near:
  assumes "of_int z - 1 / 2 < x" "x < of_int z + 1 / 2"
  shows "roundHalfEven x = z"
proof (cases "of_int z \<le> x")
  case True
  then have f: "\<lfloor>x\<rfloor> = z" using assms by (simp add: floor_unique)
  show ?thesis using assms by (simp add: roundHalfEven_def f Let_def)
next
  case False
  then have f: "\<lfloor>x\<rfloor> = z - 1" using assms by (intro floor_unique) simp_all
  show ?thesis using assms False by (simp add: roundHalfEven_def f Let_def)
qed

lemma roundHalfEven_tie:
  assumes "x = of_int z + 1 / 2"
  shows "roundHalfEven x = (if even z then z else z + 1)"
proof -
  have f: "\<lfloor>x\<rfloor> = z" using assms by (intro floor_unique) simp_all
  show ?thesis using assms by (simp add: roundHalfEven_def f Let_def)
qed

lemma roundHalfEven_int: "roundHalfEven (of_int z) = z"
  by (rule roundHalfEven_near) simp_all

lemma binary64_scaled:
  fixes k :: nat
  assumes "2 ^ 52 \<le> \<bar>x\<bar> * 2 ^ k" "\<bar>x\<bar> * 2 ^ k < 2 ^ 53"
  shows "binary64 x = of_int (roundHalfEven (x * 2 ^ k)) / 2 ^ k"
proof -
  have x: "x \<noteq> 0" using assms(1) by auto
  have p: "(2::real) powr (of_int (52 - int k)) = 2 ^ 52 / 2 ^ k"
    by (simp add: powr_diff powr_realpow)
  have p1: "(2::real) powr (of_int (52 - int k) + 1) = 2 ^ 53 / 2 ^ k"
    by (simp add: powr_diff powr_realpow powr_add)
  have A: "2 powr real_of_int (52 - int k) \<le> \<bar>x\<bar>" "\<bar>x\<bar> < 2 powr (real_of_int (52 - int k) + 1)"
    unfolding p p1 using assms by (simp_all add: field_simps)
  have "\<lfloor>log 2 \<bar>x\<bar>\<rfloor> = 52 - int k"
    using floor_log_eq_powr_iff [of "\<bar>x\<bar>" 2 "52 - int k"] A x by simp
  then have e: "\<lfloor>log 2 \<bar>x\<bar>\<rfloor> - 52 = - int k" by simp
  have q: "(2::real) powr - real k = 1 / 2 ^ k"
    by (simp add: powr_minus powr_realpow inverse_eq_divide)
  show ?thesis using x by (simp add: binary64_def e q Let_def)
qed

lemma binary64_exact:
  fixes m :: int and k :: nat
  assumes "\<bar>m\<bar> < 2 ^ 53"
  shows "binary64 (of_int m / 2 ^ k) = of_int m / 2 ^ k"
proof (cases "m = 0")
  case True
  then show ?thesis by (simp add: binary64_def)
next
  case False
  define x :: real where "x = of_int m / 2 ^ k"
  have x: "x \<noteq> 0" using False by (simp add: x_def)
  define e where "e = \<lfloor>log 2 \<bar>x\<bar>\<rfloor> - 52"
  have "\<bar>x\<bar> < 2 ^ 53 / 2 ^ k"
  proof -
    have "\<bar>real_of_int m\<bar> < 2 ^ 53" using assms by (metis of_int_abs of_int_less_numeral_power_cancel_iff)
    then show ?thesis by (simp add: x_def divide_strict_right_mono)
  qed
  also have "\<dots> = 2 powr (53 - real k)" by (simp add: powr_diff powr_realpow)
  finally have "log 2 \<bar>x\<bar> < 53 - real k"
    using x by (simp add: log_less_iff)
  then have "\<lfloor>log 2 \<bar>x\<bar>\<rfloor> < 53 - int k" by (simp add: floor_less_iff)
  then have le: "e \<le> - int k" by (simp add: e_def)
  define j where "j = nat (- int k - e)"
  have j: "int j = - int k - e" using le by (simp add: j_def)
  have e2: "of_int e = - real k - real j" using j by linarith
  have pe: "(2::real) powr of_int e = 1 / (2 ^ k * 2 ^ j)"
    unfolding e2 by (simp add: powr_diff powr_minus powr_realpow field_simps)
  have "x / 2 powr of_int e = of_int (m * 2 ^ j)"
    by (simp add: pe x_def)
  then have "roundHalfEven (x / 2 powr of_int e) = m * 2 ^ j"
    using roundHalfEven_int by metis
  then have "binary64 x = of_int (m * 2 ^ j) * 2 powr of_int e"
    using x by (simp add: binary64_def e_def [symmetric] Let_def)
  also have "\<dots> = x" by (simp add: pe x_def)
  finally show ?thesis by (simp add: x_def)
qed


lemma pearson_tenth:
  "pearsonCorrelation
     [3602879701896397 / 2 ^ 55, 3602879701896397 / 2 ^ 55, 3602879701896397 / 2 ^ 55]
     [3602879701896397 / 2 ^ 55, 3602879701896397 / 2 ^ 55, 3602879701896397 / 2 ^ 55] = 1"
proof -
  define c :: real where "c = 3602879701896397 / 2 ^ 55"
  define c2 :: real where "c2 = 3602879701896397 / 2 ^ 54"
  define s3 :: real where "s3 = 5404319552844596 / 2 ^ 54"
  define m :: real where "m = 7205759403792795 / 2 ^ 56"
  define d :: real where "d = - 1 / 2 ^ 56"
  define q1 :: real where "q1 = 1 / 2 ^ 112"
  define q2 :: real where "q2 = 2 / 2 ^ 112"
  define q3 :: real where "q3 = 3 / 2 ^ 112"
  define v :: real where "v = 3 / 2 ^ 113"
  define sd :: real where "sd = 5515760546423086 / 2 ^ 108"
  define sd2 :: real where "sd2 = 5515760546423086 / 2 ^ 107"
  define den :: real where "den = 6755399441055743 / 2 ^ 163"
  define q :: real where "q = 4503599627370497 / 2 ^ 52"
  have a1: "add64 0 c = c"
    using binary64_exact [of 3602879701896397 55] by (simp add: add64_def c_def)
  have a2: "add64 c c = c2"
    using binary64_exact [of 3602879701896397 54] by (simp add: add64_def c_def c2_def)
  have a3: "add64 c2 c = s3"
  proof -
    have "binary64 (c2 + c) = of_int (roundHalfEven ((c2 + c) * 2 ^ 54)) / 2 ^ 54"
      by (rule binary64_scaled) (simp_all add: c_def c2_def)
    moreover have "roundHalfEven ((c2 + c) * 2 ^ 54) = 5404319552844596"
      using roundHalfEven_tie [of "(c2 + c) * 2 ^ 54" 5404319552844595]
      by (simp add: c_def c2_def)
    ultimately show ?thesis by (simp add: add64_def s3_def)
  qed
  have mean: "div64 s3 3 = m"
  proof -
    have "binary64 (s3 / 3) = of_int (roundHalfEven (s3 / 3 * 2 ^ 56)) / 2 ^ 56"
      by (rule binary64_scaled) (simp_all add: s3_def)
    moreover have "roundHalfEven (s3 / 3 * 2 ^ 56) = 7205759403792795"
      by (rule roundHalfEven_near) (simp_all add: s3_def)
    ultimately show ?thesis by (simp add: div64_def m_def)
  qed
  have dv: "sub64 c m = d"
    using binary64_exact [of "- 1" 56] by (simp add: sub64_def c_def m_def d_def)
  have sq: "mul64 d d = q1"
    using binary64_exact [of 1 112] by (simp add: mul64_def d_def q1_def)
  have b1: "add64 0 q1 = q1"
    using binary64_exact [of 1 112] by (simp add: add64_def q1_def)
  have b2: "add64 q1 q1 = q2"
    using binary64_exact [of 2 112] by (simp add: add64_def q1_def q2_def)
  have b3: "add64 q2 q1 = q3"
    using binary64_exact [of 3 112] by (simp add: add64_def q1_def q2_def q3_def)
  have var: "div64 q3 2 = v"
    using binary64_exact [of 3 113] by (simp add: div64_def q3_def v_def)
  have root: "sqrt64 v = sd"
  proof -
    have lo: "5515760546423086 - 1 / 2 < sqrt v * 2 ^ 108"
    proof -
      have "(5515760546423086 - 1 / 2) / 2 ^ 108 < sqrt v"
        by (rule real_less_rsqrt) (simp add: v_def power2_eq_square)
      then show ?thesis by (simp add: field_simps)
    qed
    have hi: "sqrt v * 2 ^ 108 < 5515760546423086 + 1 / 2"
    proof -
      have "sqrt v < (5515760546423086 + 1 / 2) / 2 ^ 108"
        by (rule real_less_lsqrt) (simp_all add: v_def power2_eq_square)
      then show ?thesis by (simp add: field_simps)
    qed
    have pos: "0 \<le> sqrt v" by (simp add: v_def)
    have "binary64 (sqrt v) = of_int (roundHalfEven (sqrt v * 2 ^ 108)) / 2 ^ 108"
      by (rule binary64_scaled) (use lo hi pos in simp_all)
    moreover have "roundHalfEven (sqrt v * 2 ^ 108) = 5515760546423086"
      by (rule roundHalfEven_near) (use lo hi in simp_all)
    ultimately show ?thesis by (simp add: sqrt64_def sd_def)
  qed
  have t1: "mul64 2 sd = sd2"
    using binary64_exact [of 5515760546423086 107] by (simp add: mul64_def sd_def sd2_def)
  have t2: "mul64 sd2 sd = den"
  proof -
    have "binary64 (sd2 * sd) = of_int (roundHalfEven (sd2 * sd * 2 ^ 163)) / 2 ^ 163"
      by (rule binary64_scaled) (simp_all add: sd_def sd2_def)
    moreover have "roundHalfEven (sd2 * sd * 2 ^ 163) = 6755399441055743"
      by (rule roundHalfEven_near) (simp_all add: sd_def sd2_def)
    ultimately show ?thesis by (simp add: mul64_def den_def)
  qed
  have quo: "div64 q3 den = q"
  proof -
    have "binary64 (q3 / den) = of_int (roundHalfEven (q3 / den * 2 ^ 52)) / 2 ^ 52"
      by (rule binary64_scaled) (simp_all add: q3_def den_def)
    moreover have "roundHalfEven (q3 / den * 2 ^ 52) = 4503599627370497"
      by (rule roundHalfEven_near) (simp_all add: q3_def den_def)
    ultimately show ?thesis by (simp add: div64_def q_def)
  qed
  have sd0: "sd \<noteq> 0" "den \<noteq> 0" "max (- 1) (min 1 q) = 1"
    by (simp_all add: sd_def den_def q_def)
  have idx: "[0..<3] = [0, 1, 2]" by (simp add: upt_rec)
  have "pearsonCorrelation [c, c, c] [c, c, c] = 1"
    by (simp add: pearsonCorrelation_def Let_def idx a1 a2 a3 mean dv sq b1 b2 b3 var root t1 t2 quo sd0)
  then show ?thesis by (simp add: c_def)
qed
section \<open>Properties of the PERT sampler\<close>




text \<open>
  With \<open>gamma = 4\<close>, the value of every call in the program, estimates with
  \<open>min < max\<close> and \<open>likely\<close> between them never reach the Triangular fallback: both shape
  parameters are positive, the sampler calls \<open>random.beta\<close>, and the \<open>catch\<close> of the trial
  records the duration 0 for the task.
\<close>

lemma randomPERT_throws:
  assumes "mn < mx" "mn \<le> lk" "lk \<le> mx"
  shows "randomPERT R mn lk mx 4 g = (Inl TypeError, g)"
proof -
  have cl: "max mn (min lk mx) = lk" using assms by simp
  define m where "m = (mn + 4 * lk + mx) / 6"
  have pm: "pertMu mn lk mx 4 = Some m" by (simp add: pertMu_def m_def)
  have m1: "mn < m" "m < mx" using assms by (simp_all add: m_def)
  have d: "lk - m = (2 * lk - mn - mx) / 6" by (simp add: m_def field_simps)
  have "\<exists>a b. pertShape mn lk mx 4 m = Some (a, b) \<and> 0 < a \<and> 0 < b"
  proof (cases "lk = m")
    case True
    then show ?thesis by (simp add: pertShape_def)
  next
    case False
    then have n0: "2 * lk - mn - mx \<noteq> 0" using d by auto
    define N where "N = 2 * lk - mn - mx"
    have N: "N \<noteq> 0" "lk - m = N / 6" using n0 d by (simp_all add: N_def)
    have "(m - mn) * N / ((N / 6) * (mx - mn)) = 6 * (m - mn) / (mx - mn)"
      using N(1) by simp
    then have a: "(m - mn) * (2 * lk - mn - mx) / ((lk - m) * (mx - mn)) = 6 * (m - mn) / (mx - mn)"
      unfolding N(2) by (simp add: N_def)
    have apos: "0 < 6 * (m - mn) / (mx - mn)" using m1 assms(1) by simp
    have b: "6 * (m - mn) / (mx - mn) * (mx - m) / (m - mn) = 6 * (mx - m) / (mx - mn)"
    proof -
      define p where "p = m - mn"
      have "p \<noteq> 0" using m1 by (simp add: p_def)
      then have "6 * p / (mx - mn) * (mx - m) / p = 6 * (mx - m) / (mx - mn)" by simp
      then show ?thesis by (simp add: p_def)
    qed
    have bpos: "0 < 6 * (mx - m) / (mx - mn)" using m1 assms(1) by simp
    have ne: "m \<noteq> mx" "m \<noteq> mn" "lk - m \<noteq> 0" "m - mn \<noteq> 0" "mx - mn \<noteq> 0"
      using m1 False assms(1) by auto
    have "pertShape mn lk mx 4 m = Some (6 * (m - mn) / (mx - mn), 6 * (mx - m) / (mx - mn))"
      unfolding pertShape_def Let_def using ne False by (simp only: a b if_False simp_thms)
    then show ?thesis using apos bpos by blast
  qed
  then obtain a b where sh: "pertShape mn lk mx 4 m = Some (a, b)" and pos: "0 < a" "0 < b" by blast
  show ?thesis
    using assms pos
    by (simp add: randomPERT_def Let_def cl pm sh isFinite_def random_beta_def)
qed

lemma sampleDuration_PERT_zero:
  assumes "distType t = PERT" "min_est (duration t) < max_est (duration t)"
    "min_est (duration t) \<le> likely (duration t)" "likely (duration t) \<le> max_est (duration t)"
  shows "sampleDuration R t g = Some (0, g)"
  using randomPERT_throws [OF assms(2-4), of R g] assms(1) by (simp add: sampleDuration_def)
section \<open>The scheduler on a chain of three tasks\<close>

lemma distinct5:
  assumes "distinct [s, e, a, b, c]"
  shows "s \<noteq> e" "s \<noteq> a" "s \<noteq> b" "s \<noteq> c" "e \<noteq> a" "e \<noteq> b" "e \<noteq> c" "a \<noteq> b" "a \<noteq> c" "b \<noteq> c"
        "e \<noteq> s" "a \<noteq> s" "b \<noteq> s" "c \<noteq> s" "a \<noteq> e" "b \<noteq> e" "c \<noteq> e" "b \<noteq> a" "c \<noteq> a" "c \<noteq> b"
  using assms by auto

lemma chain_topo:
  assumes ids: "distinct [START, END, a, b, c]"
  shows "topoSort \<lparr>nodes = [START, END, a, b, c],
      adj = [(a, [b]), (b, [c]), (c, [END]), (START, [a])],
      revAdj = [(a, [START]), (b, [a]), (c, [b]), (END, [c])]\<rparr> = [START, a, b, c, END]"
  by (simp add: distinct5 [OF ids] topoSort_def countInDegree_def relaxAll_def relax_def Let_def)

lemma chain_graph_gen:
  assumes ids: "distinct [START, END, id_task A, id_task B, id_task C]"
      "id_task A \<noteq> []" "id_task B \<noteq> []"
    and deps: "dependencies A = []"
      "dependencies B = [dB]" "predecessorId dB = id_task A"
      "dependencies C = [dC]" "predecessorId dC = id_task B"
  shows "buildGraph [A, B, C] =
     \<lparr>nodes = [START, END, id_task A, id_task B, id_task C],
      adj = [(id_task A, [id_task B]), (id_task B, [id_task C]), (id_task C, [END]),
             (START, [id_task A])],
      revAdj = [(id_task A, [START]), (id_task B, [id_task A]), (id_task C, [id_task B]),
                (END, [id_task C])]\<rparr>"
  by (simp add: distinct5 [OF ids(1)] ids(2,3) deps buildGraph_def initGraph_def linkTask_def linkEnd_def addEdge_def push_at_def set_add_def Let_def)

lemma chain_graph:
  assumes ids: "distinct [START, END, id_task A, id_task B, id_task C]"
      "id_task A \<noteq> []" "id_task B \<noteq> []"
    and deps: "dependencies A = []"
      "dependencies B = [\<lparr>predecessorId = id_task A, type_dep = FS, lag = 0\<rparr>]"
      "dependencies C = [\<lparr>predecessorId = id_task B, type_dep = FS, lag = 0\<rparr>]"
  shows "buildGraph [A, B, C] =
     \<lparr>nodes = [START, END, id_task A, id_task B, id_task C],
      adj = [(id_task A, [id_task B]), (id_task B, [id_task C]), (id_task C, [END]),
             (START, [id_task A])],
      revAdj = [(id_task A, [START]), (id_task B, [id_task A]), (id_task C, [id_task B]),
                (END, [id_task C])]\<rparr>"
  by (rule chain_graph_gen [OF ids deps(1,2) _ deps(3)]) simp_all

lemma chain_taskMap:
  assumes ids: "distinct [START, END, id_task A, id_task B, id_task C]"
  shows "taskMap [A, B, C] [5, 3, 4] =
     [id_task A \<mapsto> \<lparr>entry_task = A, index = 0, entry_duration = Some 5\<rparr>,
      id_task B \<mapsto> \<lparr>entry_task = B, index = 1, entry_duration = Some 3\<rparr>,
      id_task C \<mapsto> \<lparr>entry_task = C, index = 2, entry_duration = Some 4\<rparr>]"
  by (simp add: taskMap_def numeral_2_eq_2)



lemma chain_forward:
  assumes ids: "distinct [START, END, a, b, c]"
    and deps: "dependencies A = []"
      "dependencies B = [\<lparr>predecessorId = a, type_dep = FS, lag = 0\<rparr>]"
      "dependencies C = [\<lparr>predecessorId = b, type_dep = FS, lag = 0\<rparr>]"
  shows "forwardPass [a \<mapsto> \<lparr>entry_task = A, index = iA, entry_duration = Some 5\<rparr>,
      b \<mapsto> \<lparr>entry_task = B, index = iB, entry_duration = Some 3\<rparr>,
      c \<mapsto> \<lparr>entry_task = C, index = iC, entry_duration = Some 4\<rparr>]
      \<lparr>nodes = [START, END, a, b, c],
      adj = [(a, [b]), (b, [c]), (c, [END]), (START, [a])],
      revAdj = [(a, [START]), (b, [a]), (c, [b]), (END, [c])]\<rparr> [START, a, b, c, END]
    = ((\<lambda>node. 0)(a := 0, b := 5, c := 8, END := 12),
       (\<lambda>node. 0)(a := 5, b := 8, c := 12, END := 12))"
  by (simp add: distinct5 [OF ids(1)] deps forwardPass_def forwardStep_def requiredStart_def
      findDependency_def durationOf_def Let_def)

lemma chain_backward:
  assumes ids: "distinct [START, END, a, b, c]"
    and deps: "dependencies A = []"
      "dependencies B = [\<lparr>predecessorId = a, type_dep = FS, lag = 0\<rparr>]"
      "dependencies C = [\<lparr>predecessorId = b, type_dep = FS, lag = 0\<rparr>]"
  shows "backwardPass [a \<mapsto> \<lparr>entry_task = A, index = iA, entry_duration = Some 5\<rparr>,
      b \<mapsto> \<lparr>entry_task = B, index = iB, entry_duration = Some 3\<rparr>,
      c \<mapsto> \<lparr>entry_task = C, index = iC, entry_duration = Some 4\<rparr>]
      \<lparr>nodes = [START, END, a, b, c],
      adj = [(a, [b]), (b, [c]), (c, [END]), (START, [a])],
      revAdj = [(a, [START]), (b, [a]), (c, [b]), (END, [c])]\<rparr> 12 [START, a, b, c, END]
    = ((\<lambda>node. 12)(c := 8, b := 5, a := 0, START := 0),
       (\<lambda>node. 12)(c := 12, b := 8, a := 5, START := 0))"
  by (simp add: distinct5 [OF ids(1)] deps backwardPass_def backwardStep_def requiredFinish_def
      findDependency_def durationOf_def Let_def)

lemma chain_times:
  assumes ids: "distinct [START, END, id_task A, id_task B, id_task C]"
      "id_task A \<noteq> []" "id_task B \<noteq> []"
    and deps: "dependencies A = []"
      "dependencies B = [\<lparr>predecessorId = id_task A, type_dep = FS, lag = 0\<rparr>]"
      "dependencies C = [\<lparr>predecessorId = id_task B, type_dep = FS, lag = 0\<rparr>]"
  shows "cpmTimes [A, B, C] [5, 3, 4] =
     \<lparr>es = (\<lambda>node. 0)(id_task A := 0, id_task B := 5, id_task C := 8, END := 12),
      ef = (\<lambda>node. 0)(id_task A := 5, id_task B := 8, id_task C := 12, END := 12),
      ls = (\<lambda>node. 12)(id_task C := 8, id_task B := 5, id_task A := 0, START := 0),
      lf = (\<lambda>node. 12)(id_task C := 12, id_task B := 8, id_task A := 5, START := 0)\<rparr>"
proof -
  have tm: "taskMap [A, B, C] [5, 3, 4] =
     [id_task A \<mapsto> \<lparr>entry_task = A, index = 0, entry_duration = Some 5\<rparr>,
      id_task B \<mapsto> \<lparr>entry_task = B, index = Suc 0, entry_duration = Some 3\<rparr>,
      id_task C \<mapsto> \<lparr>entry_task = C, index = Suc (Suc 0), entry_duration = Some 4\<rparr>]"
    by (simp add: taskMap_def)
  show ?thesis
    unfolding cpmTimes_def Let_def chain_graph [OF assms] chain_topo [OF ids(1)] tm
      chain_forward [OF ids(1) deps] 
    by (simp add: chain_backward [OF ids(1) deps])
qed


text \<open>
  Claim C4. Three tasks in a chain, linked finish-to-start with lag 0, with the
  deterministic durations 5, 3 and 4: Triangular(d, d, d) samples d without a draw, the
  scheduler returns the total duration 12, marks the three tasks critical, each with
  slack 0, and the earliest finish of END equals its latest finish.
\<close>

theorem C4_linear_chain:
  assumes ids: "distinct [START, END, id_task A, id_task B, id_task C]"
      "id_task A \<noteq> []" "id_task B \<noteq> []"
    and deps: "dependencies A = []"
      "dependencies B = [\<lparr>predecessorId = id_task A, type_dep = FS, lag = 0\<rparr>]"
      "dependencies C = [\<lparr>predecessorId = id_task B, type_dep = FS, lag = 0\<rparr>]"
    and dists: "distType A = Triangular" "distType B = Triangular" "distType C = Triangular"
      "duration A = \<lparr>min_est = 5, likely = 5, max_est = 5\<rparr>"
      "duration B = \<lparr>min_est = 3, likely = 3, max_est = 3\<rparr>"
      "duration C = \<lparr>min_est = 4, likely = 4, max_est = 4\<rparr>"
  shows "runDurations R [A, B, C] g = Some ([5, 3, 4], g)
    \<and> calculateCPM [A, B, C] [5, 3, 4] =
        Some \<lparr>totalDuration = 12,
              criticalPathTasks = [id_task A, id_task B, id_task C],
              taskTimings = [id_task A \<mapsto> \<lparr>es_t = 0, ef_t = 5\<rparr>,
                             id_task B \<mapsto> \<lparr>es_t = 5, ef_t = 8\<rparr>,
                             id_task C \<mapsto> \<lparr>es_t = 8, ef_t = 12\<rparr>]\<rparr>
    \<and> (let T = cpmTimes [A, B, C] [5, 3, 4]
       in ls T (id_task A) - es T (id_task A) = 0
          \<and> ls T (id_task B) - es T (id_task B) = 0
          \<and> ls T (id_task C) - es T (id_task C) = 0
          \<and> ef T END = lf T END)"
proof -
  note ne = distinct5 [OF ids(1)]
  have "runDurations R [A, B, C] g = Some ([5, 3, 4], g)"
    by (simp add: sampleDuration_def dists randomTriangular_def)
  moreover have "calculateCPM [A, B, C] [5, 3, 4] =
        Some \<lparr>totalDuration = 12,
              criticalPathTasks = [id_task A, id_task B, id_task C],
              taskTimings = [id_task A \<mapsto> \<lparr>es_t = 0, ef_t = 5\<rparr>,
                             id_task B \<mapsto> \<lparr>es_t = 5, ef_t = 8\<rparr>,
                             id_task C \<mapsto> \<lparr>es_t = 8, ef_t = 12\<rparr>]\<rparr>"
    unfolding calculateCPM_def Let_def chain_graph [OF ids deps] chain_topo [OF ids(1)]
      chain_times [OF ids deps]
    by (simp add: ne isCritical_def MIN_SLACK_TOLERANCE_def set_add_def)
  moreover have "let T = cpmTimes [A, B, C] [5, 3, 4]
       in ls T (id_task A) - es T (id_task A) = 0
          \<and> ls T (id_task B) - es T (id_task B) = 0
          \<and> ls T (id_task C) - es T (id_task C) = 0
          \<and> ef T END = lf T END"
    unfolding chain_times [OF ids deps] by (simp add: ne)
  ultimately show ?thesis by blast
qed

lemma exampleTask_sel:
  "id_task (exampleTask k d deps) = k"
  "name (exampleTask k d deps) = k"
  "dependencies (exampleTask k d deps) = deps"
  "distType (exampleTask k d deps) = Triangular"
  "duration (exampleTask k d deps) = \<lparr>min_est = d, likely = d, max_est = d\<rparr>"
  "cost (exampleTask k d deps) = \<lparr>min_est = 0, likely = 0, max_est = 0\<rparr>"
  by (simp_all add: exampleTask_def)

theorem C4_linear_chain_witness:
  "runDurations countingRandom
     [exampleTask ''A'' 5 [],
      exampleTask ''B'' 3 [\<lparr>predecessorId = ''A'', type_dep = FS, lag = 0\<rparr>],
      exampleTask ''C'' 4 [\<lparr>predecessorId = ''B'', type_dep = FS, lag = 0\<rparr>]] 0
   = Some ([5, 3, 4], 0)
   \<and> calculateCPM
     [exampleTask ''A'' 5 [],
      exampleTask ''B'' 3 [\<lparr>predecessorId = ''A'', type_dep = FS, lag = 0\<rparr>],
      exampleTask ''C'' 4 [\<lparr>predecessorId = ''B'', type_dep = FS, lag = 0\<rparr>]] [5, 3, 4]
   = Some \<lparr>totalDuration = 12, criticalPathTasks = [''A'', ''B'', ''C''],
           taskTimings = [''A'' \<mapsto> \<lparr>es_t = 0, ef_t = 5\<rparr>, ''B'' \<mapsto> \<lparr>es_t = 5, ef_t = 8\<rparr>,
                          ''C'' \<mapsto> \<lparr>es_t = 8, ef_t = 12\<rparr>]\<rparr>"
proof -
  have "runDurations countingRandom
     [exampleTask ''A'' 5 [],
      exampleTask ''B'' 3 [\<lparr>predecessorId = ''A'', type_dep = FS, lag = 0\<rparr>],
      exampleTask ''C'' 4 [\<lparr>predecessorId = ''B'', type_dep = FS, lag = 0\<rparr>]] 0
   = Some ([5, 3, 4], 0)"
    by (rule C4_linear_chain [THEN conjunct1])
       (simp_all add: exampleTask_sel START_def END_def)
  moreover have "calculateCPM
     [exampleTask ''A'' 5 [],
      exampleTask ''B'' 3 [\<lparr>predecessorId = ''A'', type_dep = FS, lag = 0\<rparr>],
      exampleTask ''C'' 4 [\<lparr>predecessorId = ''B'', type_dep = FS, lag = 0\<rparr>]] [5, 3, 4]
   = Some \<lparr>totalDuration = 12,
           criticalPathTasks = [id_task (exampleTask ''A'' 5 []),
             id_task (exampleTask ''B'' 3 [\<lparr>predecessorId = ''A'', type_dep = FS, lag = 0\<rparr>]),
             id_task (exampleTask ''C'' 4 [\<lparr>predecessorId = ''B'', type_dep = FS, lag = 0\<rparr>])],
           taskTimings = [id_task (exampleTask ''A'' 5 []) \<mapsto> \<lparr>es_t = 0, ef_t = 5\<rparr>,
             id_task (exampleTask ''B'' 3 [\<lparr>predecessorId = ''A'', type_dep = FS, lag = 0\<rparr>]) \<mapsto> \<lparr>es_t = 5, ef_t = 8\<rparr>,
             id_task (exampleTask ''C'' 4 [\<lparr>predecessorId = ''B'', type_dep = FS, lag = 0\<rparr>]) \<mapsto> \<lparr>es_t = 8, ef_t = 12\<rparr>]\<rparr>"
    by (rule C4_linear_chain [THEN conjunct2, THEN conjunct1])
       (simp_all add: exampleTask_sel START_def END_def)
  ultimately show ?thesis by (simp add: exampleTask_sel)
qed

section \<open>Properties of the scheduler\<close>

lemma set_fold_set_add:
  "set (fold (\<lambda>task cs. if P (f task) then set_add (f task) cs else cs) tasks cs0)
   = set cs0 \<union> {k \<in> f ` set tasks. P k}"
  by (induction tasks arbitrary: cs0) (auto simp: set_add_def)

lemma distinct_fold_set_add:
  "distinct cs0 \<Longrightarrow>
   distinct (fold (\<lambda>task cs. if P (f task) then set_add (f task) cs else cs) tasks cs0)"
  by (induction tasks arbitrary: cs0) (auto simp: set_add_def)

lemma calculateCPM_Some:
  assumes "calculateCPM tasks ds = Some r"
  shows "length (topoSort (buildGraph tasks)) = length (nodes (buildGraph tasks))"
    and "totalDuration r = ef (cpmTimes tasks ds) END"
    and "criticalPathTasks r =
           fold (\<lambda>task cs. if isCritical (cpmTimes tasks ds) (id_task task)
                            then set_add (id_task task) cs else cs) tasks []"
    and "taskTimings r =
           fold (\<lambda>task m. m(id_task task \<mapsto>
                   \<lparr>es_t = es (cpmTimes tasks ds) (id_task task),
                    ef_t = ef (cpmTimes tasks ds) (id_task task)\<rparr>)) tasks Map.empty"
  using assms by (auto simp: calculateCPM_def Let_def split: if_splits)

text \<open>
  Claim C3. When the scheduler succeeds, a task id is in \<open>criticalPathTasks\<close> exactly when
  it is the id of a task and \<open>|latestStart - earliestStart| < 1e-6\<close> or
  \<open>|earliestFinish - totalDuration| < 1e-6\<close>, where \<open>totalDuration\<close> is the earliest
  finish of END. Both tests are there: a task that finishes with the project is marked
  even when its slack is not 0.
\<close>

theorem C3_critical_path_marking:
  assumes "calculateCPM tasks ds = Some r"
  shows "let T = cpmTimes tasks ds
         in totalDuration r = ef T END
            \<and> (\<forall>k. k \<in> set (criticalPathTasks r) \<longleftrightarrow>
                   k \<in> id_task ` set tasks
                   \<and> (\<bar>ls T k - es T k\<bar> < 1 / 10 ^ 6 \<or> \<bar>ef T k - totalDuration r\<bar> < 1 / 10 ^ 6))"
  unfolding Let_def calculateCPM_Some(2,3) [OF assms] set_fold_set_add
  by (auto simp: isCritical_def MIN_SLACK_TOLERANCE_def)


lemma fold_map_upd:
  "fold (\<lambda>task m. m(f task \<mapsto> h (f task))) tasks m0 k
   = (if k \<in> f ` set tasks then Some (h k) else m0 k)"
  by (induction tasks arbitrary: m0) auto

lemma taskTimings_eq:
  assumes "calculateCPM tasks ds = Some r"
  shows "taskTimings r k =
           (if k \<in> id_task ` set tasks
            then Some \<lparr>es_t = es (cpmTimes tasks ds) k, ef_t = ef (cpmTimes tasks ds) k\<rparr>
            else None)"
  unfolding calculateCPM_Some(4) [OF assms]
  using fold_map_upd [of id_task "\<lambda>k. \<lparr>es_t = es (cpmTimes tasks ds) k, ef_t = ef (cpmTimes tasks ds) k\<rparr>" tasks Map.empty k]
  by simp

lemma fold_max_ge:
  fixes a :: real
  shows "a \<le> fold (\<lambda>i acc. max acc (f i)) xs a"
proof (induction xs arbitrary: a)
  case Nil
  show ?case by simp
next
  case (Cons x xs)
  have "a \<le> max a (f x)" by simp
  also have "\<dots> \<le> fold (\<lambda>i acc. max acc (f i)) xs (max a (f x))" by (rule Cons.IH)
  finally show ?case by simp
qed

lemma fold_min_le:
  fixes a :: real
  shows "fold (\<lambda>i acc. min acc (f i)) xs a \<le> a"
proof (induction xs arbitrary: a)
  case Nil
  show ?case by simp
next
  case (Cons x xs)
  have "fold (\<lambda>i acc. min acc (f i)) xs (min a (f x)) \<le> min a (f x)" by (rule Cons.IH)
  also have "\<dots> \<le> a" by simp
  finally show ?case by simp
qed

lemma durationOf_nonneg: "0 \<le> durationOf e"
  by (simp add: durationOf_def)

lemma forwardStep_eq:
  "forwardStep tm G j (es0, ef0) =
     (if j = START then (es0, ef0)
      else (es0(j := earliestStartJ tm G es0 ef0 j),
            ef0(j := earliestStartJ tm G es0 ef0 j + durJ tm j)))"
  unfolding forwardStep_def earliestStartJ_def durJ_def Let_def by simp

lemma backwardStep_eq:
  "backwardStep tm G tot i (ls0, lf0) =
     (if i = END then (ls0, lf0)
      else (ls0(i := latestFinishI tm G tot ls0 lf0 i - durI tm i),
            lf0(i := latestFinishI tm G tot ls0 lf0 i)))"
  unfolding backwardStep_def latestFinishI_def durI_def Let_def by simp

lemma durJ_nonneg: "0 \<le> durJ tm j"
  by (simp add: durJ_def durationOf_nonneg)

lemma durI_nonneg: "0 \<le> durI tm i"
  by (simp add: durI_def durationOf_nonneg)

lemma earliestStartJ_nonneg: "0 \<le> earliestStartJ tm G es0 ef0 j"
  unfolding earliestStartJ_def by (auto split: option.split intro: fold_max_ge)

lemma forwardStep_ok:
  assumes "forwardOk s"
  shows "forwardOk (forwardStep tm G j s)"
proof (cases s)
  case (Pair es0 ef0)
  then show ?thesis
    using assms durJ_nonneg [of tm j] earliestStartJ_nonneg [of tm G es0 ef0 j]
    by (auto simp: forwardStep_eq forwardOk_def)
qed

lemma forwardPass_ok: "forwardOk (forwardPass tm G order)"
proof -
  have "forwardOk s \<Longrightarrow> forwardOk (fold (forwardStep tm G) order s)" for s
    by (induction order arbitrary: s) (simp_all add: forwardStep_ok)
  moreover have "forwardOk (\<lambda>node. 0, \<lambda>node. 0)" by (simp add: forwardOk_def)
  ultimately show ?thesis unfolding forwardPass_def by blast
qed

lemma backwardStep_ok:
  assumes "backwardOk s"
  shows "backwardOk (backwardStep tm G tot i s)"
proof (cases s)
  case (Pair ls0 lf0)
  then show ?thesis
    using assms durI_nonneg [of tm i] by (auto simp: backwardStep_eq backwardOk_def)
qed

lemma backwardPass_ok: "backwardOk (backwardPass tm G tot order)"
proof -
  have "backwardOk s \<Longrightarrow> backwardOk (fold (backwardStep tm G tot) xs s)" for s xs
    by (induction xs arbitrary: s) (simp_all add: backwardStep_ok)
  moreover have "backwardOk (\<lambda>node. tot, \<lambda>node. tot)" by (simp add: backwardOk_def)
  ultimately show ?thesis unfolding backwardPass_def by blast
qed

lemma cpmTimes_ok:
  "0 \<le> es (cpmTimes tasks ds) node"
  "es (cpmTimes tasks ds) node \<le> ef (cpmTimes tasks ds) node"
  "ls (cpmTimes tasks ds) node \<le> lf (cpmTimes tasks ds) node"
proof -
  define tm where "tm = taskMap tasks ds"
  define G where "G = buildGraph tasks"
  define order where "order = topoSort G"
  obtain es0 ef0 where f: "forwardPass tm G order = (es0, ef0)" by (cases "forwardPass tm G order")
  obtain ls0 lf0 where b: "backwardPass tm G (ef0 END) order = (ls0, lf0)"
    by (cases "backwardPass tm G (ef0 END) order")
  have T: "cpmTimes tasks ds = \<lparr>es = es0, ef = ef0, ls = ls0, lf = lf0\<rparr>"
    by (simp add: cpmTimes_def Let_def tm_def [symmetric] G_def [symmetric] order_def [symmetric] f b)
  have "forwardOk (es0, ef0)" using forwardPass_ok [of tm G order] f by simp
  moreover have "backwardOk (ls0, lf0)" using backwardPass_ok [of tm G "ef0 END" order] b by simp
  ultimately show "0 \<le> es (cpmTimes tasks ds) node"
    "es (cpmTimes tasks ds) node \<le> ef (cpmTimes tasks ds) node"
    "ls (cpmTimes tasks ds) node \<le> lf (cpmTimes tasks ds) node"
    by (simp_all add: T forwardOk_def backwardOk_def)
qed

lemma relax_fold:
  assumes "\<forall>v \<in> set vs. \<exists>d. map_of m v = Some d \<and> int (count_list vs v) \<le> d"
  shows "\<exists>ps. fold relax vs (m, q) = (fst (fold relax vs (m, q)), q @ ps)
          \<and> distinct ps
          \<and> set ps = {v \<in> set vs. map_of m v = Some (int (count_list vs v))}
          \<and> (\<forall>v. map_of (fst (fold relax vs (m, q))) v
                 = map_option (\<lambda>d. d - int (count_list vs v)) (map_of m v))"
  using assms
proof (induction vs arbitrary: m q)
  case Nil
  show ?case by (simp add: option.map_ident)
next
  case (Cons v vs)
  obtain d where d: "map_of m v = Some d" "int (count_list (v # vs) v) \<le> d"
    using Cons.prems by auto
  define m1 where "m1 = AList.update v (d - 1) m"
  define q1 where "q1 = (if d - 1 = 0 then q @ [v] else q)"
  have step: "relax v (m, q) = (m1, q1)"
    by (simp add: relax_def d(1) m1_def q1_def)
  have m1: "map_of m1 w = (if w = v then Some (d - 1) else map_of m w)" for w
    by (simp add: m1_def update_conv')
  have pre: "\<forall>w \<in> set vs. \<exists>e. map_of m1 w = Some e \<and> int (count_list vs w) \<le> e"
  proof
    fix w assume w: "w \<in> set vs"
    show "\<exists>e. map_of m1 w = Some e \<and> int (count_list vs w) \<le> e"
    proof (cases "w = v")
      case True
      then show ?thesis using d(2) by (simp add: m1)
    next
      case False
      then show ?thesis using Cons.prems w by (auto simp: m1)
    qed
  qed
  obtain ps where ps: "fold relax vs (m1, q1) = (fst (fold relax vs (m1, q1)), q1 @ ps)"
    "distinct ps" "set ps = {w \<in> set vs. map_of m1 w = Some (int (count_list vs w))}"
    "\<forall>w. map_of (fst (fold relax vs (m1, q1))) w
          = map_option (\<lambda>e. e - int (count_list vs w)) (map_of m1 w)"
    using Cons.IH [OF pre, of q1] by blast
  define ps' where "ps' = (if d - 1 = 0 then v # ps else ps)"
  have f: "fold relax (v # vs) (m, q) = fold relax vs (m1, q1)" by (simp add: step)
  have q: "q1 @ ps = q @ ps'" by (simp add: q1_def ps'_def)
  have vnot: "v \<notin> set vs" if "d - 1 = 0"
  proof
    assume "v \<in> set vs"
    then have "0 < count_list vs v" using count_list_0_iff [of vs v] by auto
    then show False using d(2) that by simp
  qed
  have dist: "distinct ps'"
    using ps(2,3) vnot by (auto simp: ps'_def)
  have mem: "w \<in> set ps' \<longleftrightarrow> w \<in> set (v # vs) \<and> map_of m w = Some (int (count_list (v # vs) w))" for w
  proof (cases "w = v")
    case False
    then have "w \<in> set ps' \<longleftrightarrow> w \<in> set ps" by (simp add: ps'_def)
    also have "\<dots> \<longleftrightarrow> w \<in> set vs \<and> map_of m1 w = Some (int (count_list vs w))"
      using ps(3) by simp
    finally show ?thesis using False by (simp add: m1)
  next
    case True
    show ?thesis
    proof (cases "d - 1 = 0")
      case z: True
      have "count_list vs v = 0" using vnot [OF z] by (simp add: count_list_0_iff)
      then show ?thesis using True z d(1) by (simp add: ps'_def)
    next
      case nz: False
      have "v \<in> set ps \<longleftrightarrow> v \<in> set vs \<and> d - 1 = int (count_list vs v)"
        using ps(3) by (simp add: m1)
      moreover have "v \<in> set vs" if "d - 1 = int (count_list vs v)"
      proof (rule ccontr)
        assume "v \<notin> set vs"
        then have "count_list vs v = 0" by (simp add: count_list_0_iff)
        then show False using that nz by simp
      qed
      ultimately have "v \<in> set ps \<longleftrightarrow> d = 1 + int (count_list vs v)" by auto
      then show ?thesis using True nz d(1) by (simp add: ps'_def)
    qed
  qed
  have setps: "set ps' = {w \<in> set (v # vs). map_of m w = Some (int (count_list (v # vs) w))}"
    using mem by blast
  have maps: "map_of (fst (fold relax vs (m1, q1))) w
        = map_option (\<lambda>e. e - int (count_list (v # vs) w)) (map_of m w)" for w
    using ps(4) d(1) by (cases "w = v") (auto simp: m1)
  show ?case
    unfolding f using ps(1) q dist setps maps by (intro exI [of _ ps']) simp
qed


lemma finite_rest: "finite (set (nodes G) - set topo)"
  by simp

lemma remaining_nonneg: "0 \<le> remaining G topo v"
  unfolding remaining_def by (rule sum_nonneg) simp

lemma remaining_ge_count:
  assumes "u \<in> set (nodes G)" "u \<notin> set topo"
  shows "int (count_list (succs G u) v) \<le> remaining G topo v"
proof -
  have "int (count_list (succs G u) v)
        \<le> (\<Sum>w \<in> set (nodes G) - set topo. int (count_list (succs G w) v))"
    using assms by (intro member_le_sum) auto
  then show ?thesis by (simp add: remaining_def)
qed

lemma remaining_snoc:
  assumes "u \<in> set (nodes G)" "u \<notin> set topo"
  shows "remaining G (topo @ [u]) v = remaining G topo v - int (count_list (succs G u) v)"
proof -
  have s: "set (nodes G) - set (topo @ [u]) = (set (nodes G) - set topo) - {u}" by auto
  have "u \<in> set (nodes G) - set topo" using assms by simp
  then have "(\<Sum>w \<in> set (nodes G) - set topo. int (count_list (succs G w) v))
        = int (count_list (succs G u) v)
          + (\<Sum>w \<in> (set (nodes G) - set topo) - {u}. int (count_list (succs G w) v))"
    by (intro sum.remove) auto
  then show ?thesis unfolding remaining_def s by simp
qed

lemma relaxAll_fold: "relaxAll G u s = fold relax (succs G u) s"
  by (simp add: relaxAll_def succs_def split: option.split)

lemma succs_key:
  assumes "wfGraph G" "v \<in> set (succs G u)"
  shows "u \<in> set (nodes G)" "v \<in> set (nodes G)"
proof -
  obtain vs where "map_of (adj G) u = Some vs"
    using assms(2) by (cases "map_of (adj G) u") (auto simp: succs_def)
  then have "(u, vs) \<in> set (adj G)" by (rule map_of_SomeD)
  then have "u \<in> fst ` set (adj G)" by force
  then show "u \<in> set (nodes G)" using assms(1) by (auto simp: wfGraph_def)
  show "v \<in> set (nodes G)" using assms by (auto simp: wfGraph_def)
qed

lemma topoOrdered_snoc:
  assumes "topoOrdered G topo" "\<forall>w. u \<in> set (succs G w) \<longrightarrow> w \<in> set topo"
  shows "topoOrdered G (topo @ [u])"
  unfolding topoOrdered_def
proof (intro allI impI)
  fix i w
  assume i: "i < length (topo @ [u])" and e: "(topo @ [u]) ! i \<in> set (succs G w)"
  show "w \<in> set (take i (topo @ [u]))"
  proof (cases "i < length topo")
    case True
    then show ?thesis using assms(1) e by (simp add: topoOrdered_def nth_append)
  next
    case False
    then have "i = length topo" using i by simp
    then show ?thesis using assms(2) e by simp
  qed
qed

lemma kahn_step:
  assumes wf: "wfGraph G" and inv: "kahnInv G inDeg (u # queue) topo"
    and r: "relaxAll G u (inDeg, queue) = (inDeg', queue')"
  shows "kahnInv G inDeg' queue' (topo @ [u])"
proof -
  define vs where "vs = succs G u"
  have d: "distinct (topo @ u # queue)" and sub: "set (topo @ u # queue) \<subseteq> set (nodes G)"
    and deg: "\<And>v. map_of inDeg v = (if v \<in> set (nodes G) then Some (remaining G topo v) else None)"
    and zero: "\<And>v. v \<in> set (nodes G) \<Longrightarrow> v \<in> set (topo @ u # queue) \<longleftrightarrow> remaining G topo v = 0"
    and ord: "topoOrdered G topo"
    using inv by (auto simp: kahnInv_def)
  have u: "u \<in> set (nodes G)" "u \<notin> set topo" "u \<notin> set queue" using d sub by auto
  have u0: "remaining G topo u = 0" using zero [OF u(1)] by simp
  have rem: "remaining G (topo @ [u]) v = remaining G topo v - int (count_list vs v)" for v
    unfolding vs_def by (rule remaining_snoc [OF u(1,2)])
  have vsn: "set vs \<subseteq> set (nodes G)" using wf by (auto simp: wfGraph_def vs_def)
  have pre: "\<forall>v \<in> set vs. \<exists>e. map_of inDeg v = Some e \<and> int (count_list vs v) \<le> e"
    using vsn deg remaining_ge_count [OF u(1,2)] by (auto simp: vs_def)
  obtain ps where ps: "fold relax vs (inDeg, queue) = (fst (fold relax vs (inDeg, queue)), queue @ ps)"
    "distinct ps" "set ps = {v \<in> set vs. map_of inDeg v = Some (int (count_list vs v))}"
    "\<forall>v. map_of (fst (fold relax vs (inDeg, queue))) v
         = map_option (\<lambda>e. e - int (count_list vs v)) (map_of inDeg v)"
    using relax_fold [OF pre, of queue] by blast
  have res: "inDeg' = fst (fold relax vs (inDeg, queue))" "queue' = queue @ ps"
    using r ps(1) by (simp_all add: relaxAll_fold vs_def [symmetric])
  have setps: "set ps = {v \<in> set vs. remaining G (topo @ [u]) v = 0}"
    using ps(3) vsn deg by (auto simp: rem)
  have ps_new: "v \<notin> set (topo @ u # queue)" if "v \<in> set ps" for v
  proof -
    have v: "v \<in> set vs" "remaining G topo v = int (count_list vs v)"
      using that setps by (auto simp: rem)
    then have "0 < count_list vs v" using count_list_0_iff [of vs v] by auto
    then have "remaining G topo v \<noteq> 0" using v(2) by simp
    then show ?thesis using zero [of v] vsn v(1) by blast
  qed
  have k1: "distinct ((topo @ [u]) @ queue')"
    using d ps(2) ps_new by (auto simp: res)
  have k2: "set ((topo @ [u]) @ queue') \<subseteq> set (nodes G)"
    using sub setps vsn by (auto simp: res)
  have k3: "map_of inDeg' v = (if v \<in> set (nodes G) then Some (remaining G (topo @ [u]) v) else None)" for v
    using ps(4) deg by (simp add: res rem)
  have k4: "v \<in> set ((topo @ [u]) @ queue') \<longleftrightarrow> remaining G (topo @ [u]) v = 0"
    if v: "v \<in> set (nodes G)" for v
  proof
    assume "v \<in> set ((topo @ [u]) @ queue')"
    then consider "v \<in> set (topo @ u # queue)" | "v \<in> set ps" by (auto simp: res)
    then show "remaining G (topo @ [u]) v = 0"
    proof cases
      case 1
      then have "remaining G topo v = 0" using zero [OF v] by simp
      then have "remaining G (topo @ [u]) v \<le> 0" by (simp add: rem)
      then show ?thesis using remaining_nonneg [of G "topo @ [u]" v] by simp
    next
      case 2
      then show ?thesis using setps by simp
    qed
  next
    assume z: "remaining G (topo @ [u]) v = 0"
    show "v \<in> set ((topo @ [u]) @ queue')"
    proof (cases "v \<in> set vs")
      case True
      then have "v \<in> set ps" using setps z by simp
      then show ?thesis by (simp add: res)
    next
      case False
      then have "count_list vs v = 0" by (simp add: count_list_0_iff)
      then have "remaining G topo v = 0" using z by (simp add: rem)
      then have "v \<in> set (topo @ u # queue)" using zero [OF v] by simp
      then show ?thesis by (auto simp: res)
    qed
  qed
  have k5: "topoOrdered G (topo @ [u])"
  proof (rule topoOrdered_snoc [OF ord], intro allI impI)
    fix w assume e: "u \<in> set (succs G w)"
    show "w \<in> set topo"
    proof (rule ccontr)
      assume n: "w \<notin> set topo"
      have w: "w \<in> set (nodes G)" by (rule succs_key(1) [OF wf e])
      have "0 < count_list (succs G w) u" using e count_list_0_iff [of "succs G w" u] by auto
      then have "0 < remaining G topo u" using remaining_ge_count [OF w n, of u] by simp
      then show False using u0 by simp
    qed
  qed
  show ?thesis unfolding kahnInv_def using k1 k2 k3 k4 k5 by blast
qed

lemma kahn_result:
  assumes wf: "wfGraph G" and inv: "kahnInv G inDeg queue topo"
  shows "distinct (kahn G inDeg queue topo) \<and> set (kahn G inDeg queue topo) \<subseteq> set (nodes G)
         \<and> topoOrdered G (kahn G inDeg queue topo)"
  using wf inv
proof (induction G inDeg queue topo rule: kahn.induct)
  case (1 G inDegree topoOrder)
  then show ?case by (simp add: kahnInv_def)
next
  case (2 G inDegree u queue topoOrder)
  obtain inDeg' queue' where r: "relaxAll G u (inDegree, queue) = (inDeg', queue')"
    by (cases "relaxAll G u (inDegree, queue)")
  have "kahnInv G inDeg' queue' (topoOrder @ [u])"
    by (rule kahn_step [OF "2.prems" r])
  then show ?case using "2.IH" [OF r [symmetric] "2.prems"(1)] by (simp add: r)
qed

lemma inc_fold:
  "map_of (fold (\<lambda>succ inDegree.
                   AList.update succ
                     ((case map_of inDegree succ of None \<Rightarrow> 0 | Some d \<Rightarrow> d) + 1) inDegree) vs m) v
   = (if v \<in> set vs
      then Some ((case map_of m v of None \<Rightarrow> 0 | Some d \<Rightarrow> d) + int (count_list vs v))
      else map_of m v)"
proof (induction vs arbitrary: m)
  case Nil
  show ?case by simp
next
  case (Cons a vs)
  show ?case
    by (simp add: Cons.IH update_conv' count_list_0_iff split: option.split)
qed

lemma sum_counts_zero:
  "\<forall>e \<in> set al. v \<notin> set (snd e) \<Longrightarrow> (\<Sum>e\<leftarrow>al. int (count_list (snd e) v)) = 0"
  by (induction al) (simp_all add: count_list_0_iff)

lemma inc_fold_all:
  "map_of (fold (\<lambda>(u, successors) inDegree.
             fold (\<lambda>succ inDegree.
                     AList.update succ
                       ((case map_of inDegree succ of None \<Rightarrow> 0 | Some d \<Rightarrow> d) + 1) inDegree)
                  successors inDegree) al m) v
   = (if v \<in> \<Union> (set ` snd ` set al)
      then Some ((case map_of m v of None \<Rightarrow> 0 | Some d \<Rightarrow> d)
                 + (\<Sum>e\<leftarrow>al. int (count_list (snd e) v)))
      else map_of m v)"
proof (induction al arbitrary: m)
  case Nil
  show ?case by simp
next
  case (Cons e al)
  obtain u vs where e: "e = (u, vs)" by (cases e)
  show ?case
    by (simp add: e Cons.IH inc_fold count_list_0_iff sum_counts_zero split: option.split)
qed

lemma init_inDegree:
  "map_of (fold (\<lambda>node inDegree. AList.update node (0::int) inDegree) ns m) v
   = (if v \<in> set ns then Some 0 else map_of m v)"
  by (induction ns arbitrary: m) (simp_all add: update_conv')

lemma adj_entry_succs:
  assumes "distinct (map fst (adj G))" "e \<in> set (adj G)"
  shows "succs G (fst e) = snd e"
proof -
  have "map_of (adj G) (fst e) = Some (snd e)"
    using assms by (intro map_of_is_SomeI) simp_all
  then show ?thesis by (simp add: succs_def)
qed

lemma succs_not_key:
  assumes "u \<notin> fst ` set (adj G)"
  shows "succs G u = []"
proof -
  have "map_of (adj G) u = None" using assms by (simp add: map_of_eq_None_iff)
  then show ?thesis by (simp add: succs_def)
qed

lemma sum_adj_entries:
  assumes wf: "wfGraph G"
  shows "(\<Sum>e\<leftarrow>adj G. int (count_list (snd e) v)) = remaining G [] v"
proof -
  have dk: "distinct (map fst (adj G))" and ks: "fst ` set (adj G) \<subseteq> set (nodes G)"
    using wf by (auto simp: wfGraph_def)
  have da: "distinct (adj G)" using dk by (simp add: distinct_map)
  have inj: "inj_on fst (set (adj G))" using dk by (simp add: distinct_map)
  have "(\<Sum>e\<leftarrow>adj G. int (count_list (snd e) v)) = (\<Sum>e \<in> set (adj G). int (count_list (snd e) v))"
    using da by (simp add: sum_list_distinct_conv_sum_set)
  also have "\<dots> = (\<Sum>e \<in> set (adj G). int (count_list (succs G (fst e)) v))"
    by (intro sum.cong refl) (simp add: adj_entry_succs [OF dk])
  also have "\<dots> = (\<Sum>u \<in> fst ` set (adj G). int (count_list (succs G u) v))"
    using inj by (simp add: sum.reindex)
  also have "\<dots> = (\<Sum>u \<in> set (nodes G). int (count_list (succs G u) v))"
    using ks by (intro sum.mono_neutral_left) (auto simp: succs_not_key)
  finally show ?thesis by (simp add: remaining_def)
qed

lemma countInDegree_map:
  assumes wf: "wfGraph G"
  shows "map_of (countInDegree G) v = (if v \<in> set (nodes G) then Some (remaining G [] v) else None)"
proof (cases "v \<in> \<Union> (set ` snd ` set (adj G))")
  case True
  then obtain e where e: "e \<in> set (adj G)" "v \<in> set (snd e)" by auto
  have dk: "distinct (map fst (adj G))" using wf by (simp add: wfGraph_def)
  have "v \<in> set (succs G (fst e))" using e adj_entry_succs [OF dk e(1)] by simp
  then have "v \<in> set (nodes G)" using wf by (auto simp: wfGraph_def)
  then show ?thesis using True
    unfolding countInDegree_def inc_fold_all
    by (simp add: init_inDegree sum_adj_entries [OF wf])
next
  case False
  then have "(\<Sum>e\<leftarrow>adj G. int (count_list (snd e) v)) = 0"
    by (intro sum_counts_zero) auto
  then have "remaining G [] v = 0" using sum_adj_entries [OF wf, of v] by simp
  then show ?thesis using False
    unfolding countInDegree_def inc_fold_all
    by (simp add: init_inDegree)
qed

lemma topoSort_props:
  assumes wf: "wfGraph G"
  shows "distinct (topoSort G)" "set (topoSort G) \<subseteq> set (nodes G)" "topoOrdered G (topoSort G)"
proof -
  define inDeg where "inDeg = countInDegree G"
  define queue where "queue = filter (\<lambda>node. map_of inDeg node = Some 0) (nodes G)"
  have dn: "distinct (nodes G)" using wf by (simp add: wfGraph_def)
  have m: "map_of inDeg v = (if v \<in> set (nodes G) then Some (remaining G [] v) else None)" for v
    unfolding inDeg_def by (rule countInDegree_map [OF wf])
  have "kahnInv G inDeg queue []"
    unfolding kahnInv_def using dn m by (auto simp: queue_def topoOrdered_def)
  then have "distinct (kahn G inDeg queue []) \<and> set (kahn G inDeg queue []) \<subseteq> set (nodes G)
         \<and> topoOrdered G (kahn G inDeg queue [])"
    by (rule kahn_result [OF wf])
  moreover have "topoSort G = kahn G inDeg queue []"
    by (simp add: topoSort_def Let_def inDeg_def queue_def)
  ultimately show "distinct (topoSort G)" "set (topoSort G) \<subseteq> set (nodes G)"
    "topoOrdered G (topoSort G)" by simp_all
qed

lemma topoSort_complete:
  assumes wf: "wfGraph G" and len: "length (topoSort G) = length (nodes G)"
  shows "set (topoSort G) = set (nodes G)"
proof -
  have "card (set (topoSort G)) = card (set (nodes G))"
    using topoSort_props(1) [OF wf] wf len by (simp add: distinct_card wfGraph_def)
  then show ?thesis using topoSort_props(2) [OF wf] by (simp add: card_subset_eq)
qed

lemma push_at_present:
  assumes "k \<in> fst ` set m"
  shows "map_of (push_at k x m) k' =
           (if k' = k then Some ((case map_of m k of None \<Rightarrow> [] | Some xs \<Rightarrow> xs) @ [x]) else map_of m k')"
    and "map fst (push_at k x m) = map fst m"
proof -
  obtain xs where xs: "map_of m k = Some xs"
    using assms by (cases "map_of m k") (auto simp: map_of_eq_None_iff)
  show "map_of (push_at k x m) k' =
           (if k' = k then Some ((case map_of m k of None \<Rightarrow> [] | Some xs \<Rightarrow> xs) @ [x]) else map_of m k')"
    by (simp add: push_at_def xs update_conv')
  show "map fst (push_at k x m) = map fst m"
    using assms by (simp add: push_at_def xs update_keys)
qed

lemma set_map_fst: "fst ` set m = set (map fst m)"
  by simp

lemma addEdge_inv:
  assumes inv: "graphInv KA KR G" and u: "u \<in> KA" and v: "v \<in> KR"
  shows "graphInv KA KR (addEdge u v G)" "nodes (addEdge u v G) = nodes G"
proof -
  have ka: "fst ` set (adj G) = KA" and kr: "fst ` set (revAdj G) = KR"
    and wf: "wfGraph G" and krn: "KR \<subseteq> set (nodes G)"
    and dr: "distinct (map fst (revAdj G))" and sk: "\<And>w. set (succs G w) \<subseteq> KR"
    using inv by (auto simp: graphInv_def)
  have uk: "u \<in> fst ` set (adj G)" using u ka by simp
  have vk: "v \<in> fst ` set (revAdj G)" using v kr by simp
  show n: "nodes (addEdge u v G) = nodes G" by (simp add: addEdge_def)
  have a: "adj (addEdge u v G) = push_at u v (adj G)"
    and r: "revAdj (addEdge u v G) = push_at v u (revAdj G)"
    by (simp_all add: addEdge_def)
  have s: "succs (addEdge u v G) w = (if w = u then succs G u @ [v] else succs G w)" for w
    by (simp add: succs_def a push_at_present(1) [OF uk])
  have p: "preds (addEdge u v G) w = (if w = v then preds G v @ [u] else preds G w)" for w
    by (simp add: preds_def r push_at_present(1) [OF vk])
  have keysA: "map fst (adj (addEdge u v G)) = map fst (adj G)"
    unfolding a by (rule push_at_present(2) [OF uk])
  have keysR: "map fst (revAdj (addEdge u v G)) = map fst (revAdj G)"
    unfolding r by (rule push_at_present(2) [OF vk])
  have cnt: "count_list (succs (addEdge u v G) a) b = count_list (preds (addEdge u v G) b) a" for a b
    using wf by (auto simp: s p wfGraph_def)
  have sub: "set (succs (addEdge u v G) w) \<subseteq> KR" for w
    using sk [of w] sk [of u] v by (auto simp: s)
  have sn: "set (succs (addEdge u v G) w) \<subseteq> set (nodes G)" for w
    using sub [of w] krn by blast
  have "distinct (nodes G)" "distinct (map fst (adj G))" "set (map fst (adj G)) \<subseteq> set (nodes G)"
    using wf by (auto simp: wfGraph_def)
  then have "wfGraph (addEdge u v G)"
    unfolding wfGraph_def n keysA set_map_fst
    using cnt sn by blast
  then show "graphInv KA KR (addEdge u v G)"
    unfolding graphInv_def n set_map_fst keysA keysR
    using ka kr krn dr sub by (auto simp: set_map_fst [symmetric])
qed


lemma linkTask_inv:
  assumes inv: "graphInv KA KR G" and s: "START \<in> KA" and t: "id_task task \<in> KR"
  shows "graphInv KA KR (linkTask task G) \<and> nodes (linkTask task G) = nodes G"
proof -
  define step where "step = (\<lambda>(dep :: dependency) G. let predId = predecessorId dep
                         in if predId \<noteq> [] \<and> map_of (adj G) predId \<noteq> None
                            then addEdge predId (id_task task) G
                            else G)"
  have st: "graphInv KA KR (step dep H) \<and> nodes (step dep H) = nodes G"
    if "graphInv KA KR H \<and> nodes H = nodes G" for dep H
  proof (cases "predecessorId dep \<noteq> [] \<and> map_of (adj H) (predecessorId dep) \<noteq> None")
    case True
    then have "predecessorId dep \<in> fst ` set (adj H)" by (simp add: map_of_eq_None_iff)
    then have "predecessorId dep \<in> KA" using that by (simp add: graphInv_def)
    then show ?thesis using that True addEdge_inv [of KA KR H "predecessorId dep" "id_task task"] t
      by (simp add: step_def Let_def)
  next
    case False
    then show ?thesis using that by (auto simp: step_def Let_def)
  qed
  have fo: "graphInv KA KR (fold step deps H) \<and> nodes (fold step deps H) = nodes G"
    if "graphInv KA KR H \<and> nodes H = nodes G" for deps H
    using that by (induction deps arbitrary: H) (simp_all add: st)
  define G1 where "G1 = fold step (dependencies task) G"
  have g1: "graphInv KA KR G1 \<and> nodes G1 = nodes G"
    unfolding G1_def using inv by (intro fo) simp
  have g2: "graphInv KA KR (addEdge START (id_task task) H) \<and> nodes (addEdge START (id_task task) H) = nodes G"
    if "graphInv KA KR H \<and> nodes H = nodes G" for H
    using that addEdge_inv [of KA KR H START "id_task task"] s t by simp
  have "linkTask task G = G1 \<or> linkTask task G = addEdge START (id_task task) G1
        \<or> linkTask task G = addEdge START (id_task task) G"
    unfolding linkTask_def G1_def step_def Let_def by auto
  then show ?thesis using g1 g2 [of G1] g2 [of G] inv by auto
qed

lemma linkEnd_inv:
  assumes inv: "graphInv KA KR G" and e: "END \<in> KR"
  shows "graphInv KA KR (linkEnd task G) \<and> nodes (linkEnd task G) = nodes G"
proof (cases "map_of (adj G) (id_task task)")
  case None
  then show ?thesis using inv by (simp add: linkEnd_def)
next
  case (Some vs)
  then have "(id_task task, vs) \<in> set (adj G)" by (rule map_of_SomeD)
  then have "id_task task \<in> fst ` set (adj G)" by force
  then have "id_task task \<in> KA" using inv by (simp add: graphInv_def)
  then show ?thesis using inv Some addEdge_inv [of KA KR G "id_task task" END] e
    by (simp add: linkEnd_def)
qed

lemma fold_initGraph:
  "fold (\<lambda>task G. \<lparr>nodes = set_add (id_task task) (nodes G),
                    adj = AList.update (id_task task) [] (adj G),
                    revAdj = AList.update (id_task task) [] (revAdj G)\<rparr>) tasks
        \<lparr>nodes = ns, adj = a, revAdj = r\<rparr>
   = \<lparr>nodes = fold (\<lambda>task ns. set_add (id_task task) ns) tasks ns,
      adj = fold (\<lambda>task m. AList.update (id_task task) [] m) tasks a,
      revAdj = fold (\<lambda>task m. AList.update (id_task task) [] m) tasks r\<rparr>"
  by (induction tasks arbitrary: ns a r) simp_all

lemma fold_set_add:
  "set (fold (\<lambda>task ns. set_add (id_task task) ns) tasks ns) = set ns \<union> id_task ` set tasks"
  "distinct ns \<Longrightarrow> distinct (fold (\<lambda>task ns. set_add (id_task task) ns) tasks ns)"
  by (induction tasks arbitrary: ns) (auto simp: set_add_def)

lemma fold_update_empty:
  "map_of (fold (\<lambda>task m. AList.update (id_task task) ([] :: string list) m) tasks m) k
     = (if k \<in> id_task ` set tasks then Some [] else map_of m k)"
  "fst ` set (fold (\<lambda>task m. AList.update (id_task task) ([] :: string list) m) tasks m)
     = fst ` set m \<union> id_task ` set tasks"
  "distinct (map fst m) \<Longrightarrow>
   distinct (map fst (fold (\<lambda>task m. AList.update (id_task task) ([] :: string list) m) tasks m))"
  by (induction tasks arbitrary: m) (auto simp: update_conv' dom_update distinct_update)

lemma START_neq_END: "START \<noteq> END"
  by (simp add: START_def END_def)

lemma initGraph_inv:
  "graphInv (insert START (id_task ` set tasks)) (insert END (id_task ` set tasks)) (initGraph tasks)"
  "set (nodes (initGraph tasks)) = {START, END} \<union> id_task ` set tasks"
proof -
  define a where "a = AList.update START [] (fold (\<lambda>task m. AList.update (id_task task) ([] :: string list) m) tasks [])"
  define r where "r = AList.update END [] (fold (\<lambda>task m. AList.update (id_task task) ([] :: string list) m) tasks [])"
  define ns where "ns = fold (\<lambda>task ns. set_add (id_task task) ns) tasks [START, END]"
  have G: "initGraph tasks = \<lparr>nodes = ns, adj = a, revAdj = r\<rparr>"
    by (simp add: initGraph_def fold_initGraph Let_def a_def r_def ns_def)
  have nset: "set ns = {START, END} \<union> id_task ` set tasks"
    unfolding ns_def by (simp add: fold_set_add(1))
  have nd: "distinct ns"
    unfolding ns_def using START_neq_END by (intro fold_set_add(2)) simp
  have am: "map_of a k = (if k = START \<or> k \<in> id_task ` set tasks then Some [] else None)" for k
    by (simp add: a_def update_conv' fold_update_empty(1))
  have rm: "map_of r k = (if k = END \<or> k \<in> id_task ` set tasks then Some [] else None)" for k
    by (simp add: r_def update_conv' fold_update_empty(1))
  have ak: "fst ` set a = insert START (id_task ` set tasks)"
    by (simp add: a_def dom_update fold_update_empty(2))
  have rk: "fst ` set r = insert END (id_task ` set tasks)"
    by (simp add: r_def dom_update fold_update_empty(2))
  have ad: "distinct (map fst a)" unfolding a_def
    by (intro distinct_update fold_update_empty(3)) simp
  have rd: "distinct (map fst r)" unfolding r_def
    by (intro distinct_update fold_update_empty(3)) simp
  have s: "succs (initGraph tasks) u = []" for u by (simp add: succs_def G am)
  have p: "preds (initGraph tasks) u = []" for u by (simp add: preds_def G rm)
  have wf: "wfGraph (initGraph tasks)"
    unfolding wfGraph_def s p using nd ad ak nset by (auto simp: G)
  show "set (nodes (initGraph tasks)) = {START, END} \<union> id_task ` set tasks"
    by (simp add: G nset)
  show "graphInv (insert START (id_task ` set tasks)) (insert END (id_task ` set tasks)) (initGraph tasks)"
    unfolding graphInv_def s using wf ak rk rd nset by (auto simp: G)
qed

lemma buildGraph_inv:
  "graphInv (insert START (id_task ` set tasks)) (insert END (id_task ` set tasks)) (buildGraph tasks)"
  "set (nodes (buildGraph tasks)) = {START, END} \<union> id_task ` set tasks"
proof -
  define KA where "KA = insert START (id_task ` set tasks)"
  define KR where "KR = insert END (id_task ` set tasks)"
  define P where "P = (\<lambda>G. graphInv KA KR G \<and> nodes G = nodes (initGraph tasks))"
  have p0: "P (initGraph tasks)"
    unfolding P_def KA_def KR_def using initGraph_inv(1) [of tasks] by simp
  have p1: "P (fold linkTask ts G)" if "set ts \<subseteq> set tasks" "P G" for ts G
    using that
  proof (induction ts arbitrary: G)
    case Nil
    then show ?case by simp
  next
    case (Cons t ts)
    have "id_task t \<in> KR" using Cons.prems(1) by (auto simp: KR_def)
    then have "P (linkTask t G)"
      using Cons.prems(2) linkTask_inv [of KA KR G t] by (simp add: P_def KA_def)
    then show ?case using Cons by simp
  qed
  have p2: "P (fold linkEnd ts G)" if "P G" for ts G
    using that
  proof (induction ts arbitrary: G)
    case Nil
    then show ?case by simp
  next
    case (Cons t ts)
    have "P (linkEnd t G)"
      using Cons.prems linkEnd_inv [of KA KR G t] by (simp add: P_def KR_def)
    then show ?case using Cons by simp
  qed
  have "P (buildGraph tasks)"
    unfolding buildGraph_def by (intro p2 p1 p0) simp
  then show "graphInv (insert START (id_task ` set tasks)) (insert END (id_task ` set tasks)) (buildGraph tasks)"
    "set (nodes (buildGraph tasks)) = {START, END} \<union> id_task ` set tasks"
    using initGraph_inv(2) [of tasks] by (simp_all add: P_def KA_def KR_def)
qed

lemma buildGraph_wf: "wfGraph (buildGraph tasks)"
  using buildGraph_inv(1) [of tasks] by (simp add: graphInv_def)

lemma preds_succs:
  assumes "wfGraph G"
  shows "i \<in> set (preds G j) \<longleftrightarrow> j \<in> set (succs G i)"
proof -
  have "count_list (succs G i) j = count_list (preds G j) i"
    using assms by (simp add: wfGraph_def)
  then show ?thesis using count_list_0_iff [of "succs G i" j] count_list_0_iff [of "preds G j" i]
    by auto
qed

lemma earliestStartJ_preds:
  "earliestStartJ tm G es0 ef0 j
   = fold (\<lambda>i acc. max acc (requiredStart (tm j) (durJ tm j) es0 ef0 i)) (preds G j) 0"
  by (simp add: earliestStartJ_def preds_def split: option.split)

lemma requiredStart_cong:
  assumes "es1 i = es2 i" "ef1 i = ef2 i"
  shows "requiredStart e d es1 ef1 i = requiredStart e d es2 ef2 i"
  using assms by (simp add: requiredStart_def)

lemma earliestStartJ_cong:
  assumes "\<forall>i \<in> set (preds G j). es1 i = es2 i \<and> ef1 i = ef2 i"
  shows "earliestStartJ tm G es1 ef1 j = earliestStartJ tm G es2 ef2 j"
proof -
  have "requiredStart (tm j) (durJ tm j) es1 ef1 i = requiredStart (tm j) (durJ tm j) es2 ef2 i"
    if "i \<in> set (preds G j)" for i
    using assms that by (intro requiredStart_cong) auto
  then show ?thesis
    unfolding earliestStartJ_preds by (intro fold_cong) auto
qed

lemma forward_fold:
  assumes "distinct order"
    and "\<forall>i < length order. set (preds G (order ! i)) \<subseteq> set (take i order)"
  shows "case fold (forwardStep tm G) order (es0, ef0) of
           (es1, ef1) \<Rightarrow>
             (\<forall>j. j \<in> set order \<and> j \<noteq> START \<longrightarrow>
                   es1 j = earliestStartJ tm G es1 ef1 j \<and> ef1 j = es1 j + durJ tm j)
             \<and> (\<forall>j. j \<notin> set order \<or> j = START \<longrightarrow> es1 j = es0 j \<and> ef1 j = ef0 j)"
  using assms
proof (induction order rule: rev_induct)
  case Nil
  show ?case by simp
next
  case (snoc x xs)
  have dx: "distinct xs" and xn: "x \<notin> set xs" using snoc.prems(1) by simp_all
  have before: "set (preds G (xs ! i)) \<subseteq> set (take i xs)" if "i < length xs" for i
    using snoc.prems(2) [rule_format, of i] that by (simp add: nth_append)
  have px: "set (preds G x) \<subseteq> set xs"
    using snoc.prems(2) [rule_format, of "length xs"] by simp
  have pj: "set (preds G j) \<subseteq> set xs" if "j \<in> set xs" for j
  proof -
    have "\<exists>i < length xs. xs ! i = j" using that by (simp add: in_set_conv_nth)
    then obtain i where i: "i < length xs" "xs ! i = j" by blast
    have "set (take i xs) \<subseteq> set xs" by (rule set_take_subset)
    then show ?thesis using before [OF i(1)] i(2) by auto
  qed
  obtain es1 ef1 where f: "fold (forwardStep tm G) xs (es0, ef0) = (es1, ef1)"
    by (cases "fold (forwardStep tm G) xs (es0, ef0)")
  have b': "\<forall>i < length xs. set (preds G (xs ! i)) \<subseteq> set (take i xs)"
    using before by blast
  have IH: "(\<forall>j. j \<in> set xs \<and> j \<noteq> START \<longrightarrow>
                   es1 j = earliestStartJ tm G es1 ef1 j \<and> ef1 j = es1 j + durJ tm j)
             \<and> (\<forall>j. j \<notin> set xs \<or> j = START \<longrightarrow> es1 j = es0 j \<and> ef1 j = ef0 j)"
    using snoc.IH [OF dx b', unfolded f prod.case] .
  have ih1: "es1 j = earliestStartJ tm G es1 ef1 j \<and> ef1 j = es1 j + durJ tm j"
    if "j \<in> set xs" "j \<noteq> START" for j
    using IH that by blast
  have ih2: "es1 j = es0 j \<and> ef1 j = ef0 j" if "j \<notin> set xs \<or> j = START" for j
    using IH that by blast
  show ?case
  proof (cases "x = START")
    case True
    have r: "fold (forwardStep tm G) (xs @ [x]) (es0, ef0) = (es1, ef1)"
      using True by (simp add: f forwardStep_eq)
    have "es1 j = earliestStartJ tm G es1 ef1 j \<and> ef1 j = es1 j + durJ tm j"
      if "j \<in> set (xs @ [x])" "j \<noteq> START" for j
      using that True ih1 [of j] by auto
    moreover have "es1 j = es0 j \<and> ef1 j = ef0 j" if "j \<notin> set (xs @ [x]) \<or> j = START" for j
      using that ih2 [of j] by auto
    ultimately show ?thesis unfolding r prod.case by blast
  next
    case False
    define E where "E = earliestStartJ tm G es1 ef1 x"
    define es2 where "es2 = es1(x := E)"
    define ef2 where "ef2 = ef1(x := E + durJ tm x)"
    have r: "fold (forwardStep tm G) (xs @ [x]) (es0, ef0) = (es2, ef2)"
      using False by (simp add: f forwardStep_eq es2_def ef2_def E_def)
    have same: "earliestStartJ tm G es2 ef2 j = earliestStartJ tm G es1 ef1 j"
      if "set (preds G j) \<subseteq> set xs" for j
      using that xn by (intro earliestStartJ_cong) (auto simp: es2_def ef2_def)
    have a: "es2 j = earliestStartJ tm G es2 ef2 j \<and> ef2 j = es2 j + durJ tm j"
      if "j \<in> set (xs @ [x])" "j \<noteq> START" for j
    proof (cases "j = x")
      case True
      then show ?thesis using same [OF px] by (simp add: es2_def ef2_def E_def)
    next
      case False
      then have j: "j \<in> set xs" using that(1) by simp
      then show ?thesis using ih1 [OF j that(2)] same [OF pj [OF j]] False
        by (simp add: es2_def ef2_def)
    qed
    have b: "es2 j = es0 j \<and> ef2 j = ef0 j" if "j \<notin> set (xs @ [x]) \<or> j = START" for j
    proof -
      have "j \<noteq> x" using that False by auto
      moreover have "j \<notin> set xs \<or> j = START" using that by auto
      ultimately show ?thesis using ih2 [of j] by (simp add: es2_def ef2_def)
    qed
    show ?thesis unfolding r prod.case using a b by blast
  qed
qed

lemma lead_graph:
  "buildGraph leadExample =
     \<lparr>nodes = [START, END, ''A'', ''B'', ''D''],
      adj = [(''A'', [''B'']), (''B'', [''D'']), (''D'', [END]), (START, [''A''])],
      revAdj = [(''A'', [START]), (''B'', [''A'']), (''D'', [''B'']), (END, [''D''])]\<rparr>"
  using chain_graph_gen [of "exampleTask ''A'' 2 []"
      "exampleTask ''B'' 10 [\<lparr>predecessorId = ''A'', type_dep = FS, lag = 0\<rparr>]"
      "exampleTask ''D'' 2 [\<lparr>predecessorId = ''B'', type_dep = FS, lag = - 13\<rparr>]"
      "\<lparr>predecessorId = ''A'', type_dep = FS, lag = 0\<rparr>"
      "\<lparr>predecessorId = ''B'', type_dep = FS, lag = - 13\<rparr>"]
  by (simp add: leadExample_def exampleTask_sel START_def END_def)

lemma lead_ids: "distinct [START, END, ''A'', ''B'', ''D'']"
  by (simp add: START_def END_def)

lemma lead_topo: "topoSort (buildGraph leadExample) = [START, ''A'', ''B'', ''D'', END]"
  unfolding lead_graph by (rule chain_topo [OF lead_ids])

lemma lead_taskMap:
  "taskMap leadExample [2, 10, 2] =
     [''A'' \<mapsto> \<lparr>entry_task = exampleTask ''A'' 2 [], index = 0, entry_duration = Some 2\<rparr>,
      ''B'' \<mapsto> \<lparr>entry_task = exampleTask ''B'' 10 [\<lparr>predecessorId = ''A'', type_dep = FS, lag = 0\<rparr>],
                 index = Suc 0, entry_duration = Some 10\<rparr>,
      ''D'' \<mapsto> \<lparr>entry_task = exampleTask ''D'' 2 [\<lparr>predecessorId = ''B'', type_dep = FS, lag = - 13\<rparr>],
                 index = Suc (Suc 0), entry_duration = Some 2\<rparr>]"
  by (simp add: taskMap_def leadExample_def exampleTask_sel)

lemma lead_forward:
  "forwardPass (taskMap leadExample [2, 10, 2]) (buildGraph leadExample)
     [START, ''A'', ''B'', ''D'', END]
   = ((\<lambda>node. 0)(''A'' := 0, ''B'' := 2, ''D'' := 0, END := 2),
      (\<lambda>node. 0)(''A'' := 2, ''B'' := 12, ''D'' := 2, END := 2))"
  unfolding lead_graph lead_taskMap
  by (simp add: distinct5 [OF lead_ids] exampleTask_sel forwardPass_def forwardStep_def
      requiredStart_def findDependency_def durationOf_def Let_def)

lemma lead_backward:
  "backwardPass (taskMap leadExample [2, 10, 2]) (buildGraph leadExample) 2
     [START, ''A'', ''B'', ''D'', END]
   = ((\<lambda>node. 2)(''D'' := 0, ''B'' := - 8, ''A'' := - 10, START := - 10),
      (\<lambda>node. 2)(''D'' := 2, ''B'' := 2, ''A'' := - 8, START := - 10))"
  unfolding lead_graph lead_taskMap
  by (simp add: distinct5 [OF lead_ids] exampleTask_sel backwardPass_def backwardStep_def
      requiredFinish_def findDependency_def durationOf_def Let_def)

lemma lead_times:
  "cpmTimes leadExample [2, 10, 2] =
     \<lparr>es = (\<lambda>node. 0)(''A'' := 0, ''B'' := 2, ''D'' := 0, END := 2),
      ef = (\<lambda>node. 0)(''A'' := 2, ''B'' := 12, ''D'' := 2, END := 2),
      ls = (\<lambda>node. 2)(''D'' := 0, ''B'' := - 8, ''A'' := - 10, START := - 10),
      lf = (\<lambda>node. 2)(''D'' := 2, ''B'' := 2, ''A'' := - 8, START := - 10)\<rparr>"
  unfolding cpmTimes_def Let_def lead_topo lead_forward
  by (simp add: distinct5 [OF lead_ids] lead_backward)

lemma lead_result:
  "calculateCPM leadExample [2, 10, 2] =
     Some \<lparr>totalDuration = 2, criticalPathTasks = [''A'', ''D''],
           taskTimings = [''A'' \<mapsto> \<lparr>es_t = 0, ef_t = 2\<rparr>, ''B'' \<mapsto> \<lparr>es_t = 2, ef_t = 12\<rparr>,
                          ''D'' \<mapsto> \<lparr>es_t = 0, ef_t = 2\<rparr>]\<rparr>"
  unfolding calculateCPM_def Let_def lead_topo lead_times lead_graph
  by (simp add: chain_topo [OF lead_ids] distinct5 [OF lead_ids] isCritical_def MIN_SLACK_TOLERANCE_def
      set_add_def leadExample_def exampleTask_sel)

lemma fold_max_Max:
  fixes a :: real
  shows "fold (\<lambda>i acc. max acc (f i)) xs a = Max (insert a (f ` set xs))"
proof (induction xs arbitrary: a)
  case Nil
  show ?case by simp
next
  case (Cons x xs)
  show ?case
  proof (cases "f ` set xs = {}")
    case True
    then show ?thesis by (simp add: Cons.IH max.commute)
  next
    case False
    have fin: "finite (f ` set xs)" by simp
    have "Max (insert (max a (f x)) (f ` set xs)) = max (max a (f x)) (Max (f ` set xs))"
      using fin False by (rule Max_insert)
    moreover have "Max (insert a (insert (f x) (f ` set xs)))
          = max a (max (f x) (Max (f ` set xs)))"
      using fin False by (simp add: Max_insert)
    ultimately show ?thesis by (simp add: Cons.IH max.assoc)
  qed
qed

lemma cpmTimes_forward_sel:
  "es (cpmTimes tasks ds)
     = fst (forwardPass (taskMap tasks ds) (buildGraph tasks) (topoSort (buildGraph tasks)))"
  "ef (cpmTimes tasks ds)
     = snd (forwardPass (taskMap tasks ds) (buildGraph tasks) (topoSort (buildGraph tasks)))"
  by (simp_all add: cpmTimes_def Let_def split: prod.split)

lemma preds_before:
  assumes wf: "wfGraph G"
  shows "\<forall>i < length (topoSort G). set (preds G (topoSort G ! i)) \<subseteq> set (take i (topoSort G))"
proof (intro allI impI subsetI)
  fix i u
  assume i: "i < length (topoSort G)" and u: "u \<in> set (preds G (topoSort G ! i))"
  have "topoSort G ! i \<in> set (succs G u)" using u preds_succs [OF wf] by simp
  then show "u \<in> set (take i (topoSort G))"
    using topoSort_props(3) [OF wf] i by (simp add: topoOrdered_def)
qed

lemma cpmTimes_forward:
  assumes len: "length (topoSort (buildGraph tasks)) = length (nodes (buildGraph tasks))"
  shows "es (cpmTimes tasks ds) START = 0" "ef (cpmTimes tasks ds) START = 0"
    and "j \<in> set (nodes (buildGraph tasks)) \<Longrightarrow> j \<noteq> START \<Longrightarrow>
         es (cpmTimes tasks ds) j
           = earliestStartJ (taskMap tasks ds) (buildGraph tasks)
               (es (cpmTimes tasks ds)) (ef (cpmTimes tasks ds)) j
         \<and> ef (cpmTimes tasks ds) j = es (cpmTimes tasks ds) j + durJ (taskMap tasks ds) j"
proof -
  define G where "G = buildGraph tasks"
  define tm where "tm = taskMap tasks ds"
  have wf: "wfGraph G" unfolding G_def by (rule buildGraph_wf)
  obtain es1 ef1 where f: "fold (forwardStep tm G) (topoSort G) (\<lambda>node. 0, \<lambda>node. 0) = (es1, ef1)"
    by (cases "fold (forwardStep tm G) (topoSort G) (\<lambda>node. 0, \<lambda>node. 0)")
  have e: "es (cpmTimes tasks ds) = es1" "ef (cpmTimes tasks ds) = ef1"
    using f by (simp_all add: cpmTimes_forward_sel forwardPass_def G_def tm_def)
  have F: "(\<forall>j. j \<in> set (topoSort G) \<and> j \<noteq> START \<longrightarrow>
                   es1 j = earliestStartJ tm G es1 ef1 j \<and> ef1 j = es1 j + durJ tm j)
             \<and> (\<forall>j. j \<notin> set (topoSort G) \<or> j = START \<longrightarrow> es1 j = 0 \<and> ef1 j = 0)"
    using forward_fold [OF topoSort_props(1) [OF wf] preds_before [OF wf],
        of tm "\<lambda>node. 0" "\<lambda>node. 0", unfolded f prod.case] .
  show "es (cpmTimes tasks ds) START = 0" "ef (cpmTimes tasks ds) START = 0"
    unfolding e using F by blast+
  assume j: "j \<in> set (nodes (buildGraph tasks))" "j \<noteq> START"
  have "set (topoSort G) = set (nodes G)"
    using len by (intro topoSort_complete [OF wf]) (simp add: G_def)
  then have "j \<in> set (topoSort G)" using j(1) by (simp add: G_def)
  then show "es (cpmTimes tasks ds) j
           = earliestStartJ (taskMap tasks ds) (buildGraph tasks)
               (es (cpmTimes tasks ds)) (ef (cpmTimes tasks ds)) j
         \<and> ef (cpmTimes tasks ds) j = es (cpmTimes tasks ds) j + durJ (taskMap tasks ds) j"
    unfolding e G_def [symmetric] tm_def [symmetric] using F j(2) by blast
qed

lemma requiredStart_cases:
  "requiredStart e d esf eff i =
     (case findDependency e i of
        None \<Rightarrow> eff i
      | Some dep \<Rightarrow>
          (case type_dep dep of
             FS \<Rightarrow> eff i + lag dep
           | SS \<Rightarrow> esf i + lag dep
           | FF \<Rightarrow> eff i + lag dep - d
           | SF \<Rightarrow> esf i + lag dep - d
           | OtherType \<Rightarrow> eff i + lag dep))"
  by (simp add: requiredStart_def Let_def split: option.split depType.split)

lemma find_unique:
  assumes "distinct (map f xs)" "d \<in> set xs" "f d = i"
  shows "List.find (\<lambda>x. f x = i) xs = Some d"
  using assms
proof (induction xs)
  case Nil
  then show ?case by simp
next
  case (Cons x xs)
  show ?case
  proof (cases "f x = i")
    case True
    have "d = x"
    proof (rule ccontr)
      assume "d \<noteq> x"
      then have "d \<in> set xs" using Cons.prems(2) by simp
      then have "f d \<in> f ` set xs" by simp
      then show False using Cons.prems(1,3) True by simp
    qed
    then show ?thesis using True by simp
  next
    case False
    then have "d \<in> set xs" using Cons.prems(2,3) by auto
    then show ?thesis using Cons.IH Cons.prems(1,3) False by simp
  qed
qed

lemma taskMap_fold_entry:
  assumes "fold (\<lambda>(index, task) m.
             m(id_task task \<mapsto>
               \<lparr>entry_task = task, index = index,
                entry_duration = (if index < length ds then Some (ds ! index) else None)\<rparr>))
          (enumerate n ts) m k = Some e"
  shows "m k = Some e \<or> entry_task e \<in> set ts"
  using assms
proof (induction ts arbitrary: n m)
  case Nil
  then show ?case by simp
next
  case (Cons t ts)
  from Cons.prems Cons.IH [of "Suc n" "m(id_task t \<mapsto>
               \<lparr>entry_task = t, index = n,
                entry_duration = (if n < length ds then Some (ds ! n) else None)\<rparr>)"]
  show ?case by (auto split: if_splits)
qed

lemma taskMap_entry:
  assumes "taskMap tasks ds k = Some e"
  shows "entry_task e \<in> set tasks"
  using taskMap_fold_entry [of ds 0 tasks Map.empty k e] assms by (simp add: taskMap_def)

lemma requiredStart_dep:
  assumes "distinct (map predecessorId (dependencies (entry_task e)))"
    and "dep \<in> set (dependencies (entry_task e))" "predecessorId dep = i"
  shows "requiredStart (Some e) d esf eff i =
           (case type_dep dep of
              FS \<Rightarrow> eff i + lag dep
            | SS \<Rightarrow> esf i + lag dep
            | FF \<Rightarrow> eff i + lag dep - d
            | SF \<Rightarrow> esf i + lag dep - d
            | OtherType \<Rightarrow> eff i + lag dep)"
  using find_unique [OF assms]
  by (simp add: requiredStart_cases findDependency_def)

lemma requiredStart_nodep:
  assumes "\<forall>e. taskJ = Some e \<longrightarrow> (\<forall>dep \<in> set (dependencies (entry_task e)). predecessorId dep \<noteq> i)"
  shows "requiredStart taskJ d esf eff i = eff i"
proof (cases taskJ)
  case None
  then show ?thesis by (simp add: requiredStart_cases findDependency_def)
next
  case (Some e)
  then have "List.find (\<lambda>x. predecessorId x = i) (dependencies (entry_task e)) = None"
    using assms by (simp add: find_None_iff)
  then show ?thesis using Some by (simp add: requiredStart_cases findDependency_def)
qed

text \<open>
  Claim C2, amended. When the scheduler succeeds, START has earliest start and finish 0,
  and for every other node \<open>j\<close> the earliest start is the maximum of 0 and of the required
  starts over the predecessors \<open>i\<close> in \<open>revAdj\<close>: 0 is a floor for every node, and a
  required start below 0 is clamped to it. When the dependencies of a task name each
  predecessor once, the required start follows the dependency of \<open>j\<close> on \<open>i\<close>:
  FS \<open>ef(i) + lag\<close>, SS \<open>es(i) + lag\<close>, FF \<open>ef(i) + lag - d\<close>, SF \<open>es(i) + lag - d\<close>, and
  \<open>ef(i)\<close> for an implicit edge that no dependency names; \<open>d\<close> is the duration that the
  scheduler uses for \<open>j\<close>. The earliest finish is the earliest start plus \<open>d\<close>.
\<close>

theorem C2_forward_pass_clamped:
  assumes "calculateCPM tasks ds = Some r"
    and "\<forall>t \<in> set tasks. distinct (map predecessorId (dependencies t))"
  shows "let T = cpmTimes tasks ds; G = buildGraph tasks; tm = taskMap tasks ds
         in es T START = 0 \<and> ef T START = 0
            \<and> (\<forall>j \<in> set (nodes G). j \<noteq> START \<longrightarrow>
                  es T j = Max (insert 0 ((\<lambda>i. requiredStart (tm j) (durJ tm j) (es T) (ef T) i)
                                            ` set (preds G j)))
                  \<and> ef T j = es T j + durJ tm j)
            \<and> (\<forall>j. durJ tm j = (if j = END then 0 else durationOf (tm j)) \<and> 0 \<le> durJ tm j)
            \<and> (\<forall>j i d esf eff.
                  (\<forall>e dep. tm j = Some e \<and> dep \<in> set (dependencies (entry_task e))
                            \<and> predecessorId dep = i \<longrightarrow>
                     requiredStart (tm j) d esf eff i =
                       (case type_dep dep of
                          FS \<Rightarrow> eff i + lag dep
                        | SS \<Rightarrow> esf i + lag dep
                        | FF \<Rightarrow> eff i + lag dep - d
                        | SF \<Rightarrow> esf i + lag dep - d
                        | OtherType \<Rightarrow> eff i + lag dep))
                  \<and> ((\<forall>e. tm j = Some e \<longrightarrow>
                         (\<forall>dep \<in> set (dependencies (entry_task e)). predecessorId dep \<noteq> i)) \<longrightarrow>
                       requiredStart (tm j) d esf eff i = eff i))"
proof -
  note len = calculateCPM_Some(1) [OF assms(1)]
  have a: "es (cpmTimes tasks ds) j
          = Max (insert 0 ((\<lambda>i. requiredStart (taskMap tasks ds j) (durJ (taskMap tasks ds) j)
                                  (es (cpmTimes tasks ds)) (ef (cpmTimes tasks ds)) i)
                            ` set (preds (buildGraph tasks) j)))
        \<and> ef (cpmTimes tasks ds) j = es (cpmTimes tasks ds) j + durJ (taskMap tasks ds) j"
    if "j \<in> set (nodes (buildGraph tasks))" "j \<noteq> START" for j
    using cpmTimes_forward(3) [OF len that, of ds]
    by (simp only: earliestStartJ_preds fold_max_Max)
  have b: "requiredStart (taskMap tasks ds j) d esf eff i =
                       (case type_dep dep of
                          FS \<Rightarrow> eff i + lag dep
                        | SS \<Rightarrow> esf i + lag dep
                        | FF \<Rightarrow> eff i + lag dep - d
                        | SF \<Rightarrow> esf i + lag dep - d
                        | OtherType \<Rightarrow> eff i + lag dep)"
    if "taskMap tasks ds j = Some e \<and> dep \<in> set (dependencies (entry_task e))
                            \<and> predecessorId dep = i" for j i d esf eff e dep
  proof -
    have "entry_task e \<in> set tasks" using that taskMap_entry by blast
    then have "distinct (map predecessorId (dependencies (entry_task e)))"
      using assms(2) by blast
    then show ?thesis using requiredStart_dep [of e dep i d esf eff] that by simp
  qed
  have c: "requiredStart (taskMap tasks ds j) d esf eff i = eff i"
    if "\<forall>e. taskMap tasks ds j = Some e \<longrightarrow>
                         (\<forall>dep \<in> set (dependencies (entry_task e)). predecessorId dep \<noteq> i)"
    for j i d esf eff
    using requiredStart_nodep [OF that] .
  have e: "durJ tm j = (if j = END then 0 else durationOf (tm j)) \<and> 0 \<le> durJ tm j" for tm j
    using durJ_nonneg [of tm j] by (simp add: durJ_def)
  show ?thesis
    unfolding Let_def
  proof (intro conjI ballI allI impI)
    show "es (cpmTimes tasks ds) START = 0" using cpmTimes_forward(1) [OF len, of ds] .
    show "ef (cpmTimes tasks ds) START = 0" using cpmTimes_forward(2) [OF len, of ds] .
  qed (use a b c e in blast)+
qed

lemma backward_fold_dur:
  assumes "\<forall>i \<in> S. i \<noteq> END \<longrightarrow> ls0 i = lf0 i - durI tm i"
  shows "\<forall>i \<in> S \<union> set xs. i \<noteq> END \<longrightarrow>
           fst (fold (backwardStep tm G tot) xs (ls0, lf0)) i
           = snd (fold (backwardStep tm G tot) xs (ls0, lf0)) i - durI tm i"
  using assms
proof (induction xs arbitrary: ls0 lf0 S)
  case Nil
  then show ?case by simp
next
  case (Cons x xs)
  obtain ls1 lf1 where st: "backwardStep tm G tot x (ls0, lf0) = (ls1, lf1)"
    by (cases "backwardStep tm G tot x (ls0, lf0)")
  have "\<forall>i \<in> insert x S. i \<noteq> END \<longrightarrow> ls1 i = lf1 i - durI tm i"
  proof (intro ballI impI)
    fix i assume i: "i \<in> insert x S" "i \<noteq> END"
    show "ls1 i = lf1 i - durI tm i"
    proof (cases "x = END")
      case True
      then have "ls1 = ls0" "lf1 = lf0" using st by (simp_all add: backwardStep_eq)
      then show ?thesis using Cons.prems i True by auto
    next
      case False
      then have e: "ls1 = ls0(x := latestFinishI tm G tot ls0 lf0 x - durI tm x)"
        "lf1 = lf0(x := latestFinishI tm G tot ls0 lf0 x)"
        using st by (simp_all add: backwardStep_eq)
      show ?thesis
      proof (cases "i = x")
        case True
        then show ?thesis by (simp add: e)
      next
        case False
        then have "i \<in> S" using i(1) by simp
        then have "ls0 i = lf0 i - durI tm i" using Cons.prems i(2) by blast
        then show ?thesis using False by (simp add: e)
      qed
    qed
  qed
  then have "\<forall>i \<in> insert x S \<union> set xs. i \<noteq> END \<longrightarrow>
           fst (fold (backwardStep tm G tot) xs (ls1, lf1)) i
           = snd (fold (backwardStep tm G tot) xs (ls1, lf1)) i - durI tm i"
    by (rule Cons.IH)
  then show ?case by (simp add: st)
qed

lemma cpmTimes_backward_sel:
  "ls (cpmTimes tasks ds)
     = fst (backwardPass (taskMap tasks ds) (buildGraph tasks) (ef (cpmTimes tasks ds) END)
              (topoSort (buildGraph tasks)))"
  "lf (cpmTimes tasks ds)
     = snd (backwardPass (taskMap tasks ds) (buildGraph tasks) (ef (cpmTimes tasks ds) END)
              (topoSort (buildGraph tasks)))"
  by (simp_all add: cpmTimes_def Let_def split: prod.split)

lemma cpmTimes_backward:
  assumes len: "length (topoSort (buildGraph tasks)) = length (nodes (buildGraph tasks))"
    and i: "i \<in> set (nodes (buildGraph tasks))" "i \<noteq> END"
  shows "ls (cpmTimes tasks ds) i = lf (cpmTimes tasks ds) i - durI (taskMap tasks ds) i"
proof -
  have wf: "wfGraph (buildGraph tasks)" by (rule buildGraph_wf)
  have "set (topoSort (buildGraph tasks)) = set (nodes (buildGraph tasks))"
    by (rule topoSort_complete [OF wf len])
  then have "i \<in> {} \<union> set (rev (topoSort (buildGraph tasks)))" using i(1) by simp
  then show ?thesis
    unfolding cpmTimes_backward_sel backwardPass_def
    using backward_fold_dur [of "{}" _ _ _ "rev (topoSort (buildGraph tasks))"] i(2)
    by blast
qed

lemma taskMap_fold_other:
  "k \<notin> id_task ` set ts \<Longrightarrow>
   fold (\<lambda>(index, task) m.
             m(id_task task \<mapsto>
               \<lparr>entry_task = task, index = index,
                entry_duration = (if index < length ds then Some (ds ! index) else None)\<rparr>))
        (enumerate n ts) m k = m k"
  by (induction ts arbitrary: n m) auto

lemma taskMap_fold_lookup:
  assumes "distinct (map id_task ts)" "idx < length ts"
  shows "fold (\<lambda>(index, task) m.
             m(id_task task \<mapsto>
               \<lparr>entry_task = task, index = index,
                entry_duration = (if index < length ds then Some (ds ! index) else None)\<rparr>))
        (enumerate n ts) m (id_task (ts ! idx))
     = Some \<lparr>entry_task = ts ! idx, index = n + idx,
             entry_duration = (if n + idx < length ds then Some (ds ! (n + idx)) else None)\<rparr>"
proof -
  define E where "E = (\<lambda>i (t :: task). \<lparr>entry_task = t, index = i,
                entry_duration = (if i < length ds then Some (ds ! i) else None)\<rparr>)"
  define F where "F = (\<lambda>(i, t) (m :: string \<rightharpoonup> taskEntry). m(id_task t \<mapsto> E i t))"
  have Fap: "F (i, t) m = m(id_task t \<mapsto> E i t)" for i t m by (simp add: F_def)
  have other: "fold F (enumerate n ts) m k = m k" if "k \<notin> id_task ` set ts" for k ts n m
    using that taskMap_fold_other [of k ts ds n m] by (simp add: F_def E_def)
  have main: "fold F (enumerate n ts) m (id_task (ts ! idx)) = Some (E (n + idx) (ts ! idx))"
    if "distinct (map id_task ts)" "idx < length ts" for ts n m idx
    using that
  proof (induction ts arbitrary: n m idx)
    case Nil
    then show ?case by simp
  next
    case (Cons t ts)
    have f: "fold F (enumerate n (t # ts)) m = fold F (enumerate (Suc n) ts) (m(id_task t \<mapsto> E n t))"
      by (simp add: Fap)
    show ?case
    proof (cases idx)
      case 0
      have "id_task t \<notin> id_task ` set ts" using Cons.prems(1) by auto
      then have "fold F (enumerate (Suc n) ts) (m(id_task t \<mapsto> E n t)) (id_task t)
                 = (m(id_task t \<mapsto> E n t)) (id_task t)"
        by (rule other)
      then show ?thesis unfolding f using 0 by simp
    next
      case (Suc k)
      have "fold F (enumerate (Suc n) ts) (m(id_task t \<mapsto> E n t)) (id_task (ts ! k))
            = Some (E (Suc n + k) (ts ! k))"
        using Cons.prems Suc by (intro Cons.IH) simp_all
      then show ?thesis unfolding f using Suc by simp
    qed
  qed
  show ?thesis using main [OF assms, of n m] by (simp add: F_def E_def)
qed

lemma taskMap_lookup:
  assumes "distinct (map id_task tasks)" "idx < length tasks"
  shows "taskMap tasks ds (id_task (tasks ! idx))
     = Some \<lparr>entry_task = tasks ! idx, index = idx,
             entry_duration = (if idx < length ds then Some (ds ! idx) else None)\<rparr>"
  unfolding taskMap_def using taskMap_fold_lookup [OF assms, of ds 0 Map.empty] by simp

lemma durJ_task:
  assumes "distinct (map id_task tasks)" "idx < length tasks" "idx < length ds"
    and "id_task (tasks ! idx) \<noteq> START" "id_task (tasks ! idx) \<noteq> END"
  shows "durJ (taskMap tasks ds) (id_task (tasks ! idx)) = max 0 (ds ! idx)"
    and "durI (taskMap tasks ds) (id_task (tasks ! idx)) = max 0 (ds ! idx)"
  using assms(3-5) by (simp_all add: durJ_def durI_def durationOf_def taskMap_lookup [OF assms(1,2)])

text \<open>
  Claim C10. When the scheduler succeeds, whatever the sampled durations are: the total
  duration is at least 0; every node has \<open>0 \<le> es \<le> ef\<close> and \<open>ls \<le> lf\<close>; the forward pass
  gives \<open>ef = es + d\<close> and the backward pass \<open>ls = lf - d\<close>, where \<open>d\<close> is the duration
  clamped at 0, which for a task with a unique id other than START and END is
  \<open>max 0\<close> of its sampled duration.
\<close>

theorem C10_durations_clamped:
  assumes "calculateCPM tasks ds = Some r"
  shows "0 \<le> totalDuration r
    \<and> (\<forall>k t. taskTimings r k = Some t \<longrightarrow> 0 \<le> es_t t \<and> es_t t \<le> ef_t t)
    \<and> (let T = cpmTimes tasks ds; tm = taskMap tasks ds
       in (\<forall>j \<in> set (nodes (buildGraph tasks)).
              0 \<le> es T j \<and> es T j \<le> ef T j \<and> ls T j \<le> lf T j
              \<and> (j \<noteq> START \<longrightarrow> ef T j = es T j + durJ tm j)
              \<and> (j \<noteq> END \<longrightarrow> ls T j = lf T j - durI tm j))
          \<and> (distinct (map id_task tasks) \<longrightarrow>
               (\<forall>idx < length tasks. idx < length ds \<longrightarrow>
                  id_task (tasks ! idx) \<noteq> START \<longrightarrow> id_task (tasks ! idx) \<noteq> END \<longrightarrow>
                  durJ tm (id_task (tasks ! idx)) = max 0 (ds ! idx)
                  \<and> durI tm (id_task (tasks ! idx)) = max 0 (ds ! idx))))"
proof -
  note len = calculateCPM_Some(1) [OF assms]
  have a: "0 \<le> totalDuration r"
    using cpmTimes_ok(1,2) [of tasks ds END] by (simp add: calculateCPM_Some(2) [OF assms])
  have b: "0 \<le> es_t t \<and> es_t t \<le> ef_t t" if "taskTimings r k = Some t" for k t
    using that cpmTimes_ok(1,2) [of tasks ds k]
    by (auto simp: taskTimings_eq [OF assms] split: if_splits)
  have c: "0 \<le> es (cpmTimes tasks ds) j \<and> es (cpmTimes tasks ds) j \<le> ef (cpmTimes tasks ds) j
        \<and> ls (cpmTimes tasks ds) j \<le> lf (cpmTimes tasks ds) j
        \<and> (j \<noteq> START \<longrightarrow> ef (cpmTimes tasks ds) j = es (cpmTimes tasks ds) j + durJ (taskMap tasks ds) j)
        \<and> (j \<noteq> END \<longrightarrow> ls (cpmTimes tasks ds) j = lf (cpmTimes tasks ds) j - durI (taskMap tasks ds) j)"
    if "j \<in> set (nodes (buildGraph tasks))" for j
    using cpmTimes_ok [of tasks ds j] cpmTimes_forward(3) [OF len that, of ds]
      cpmTimes_backward [OF len that, of ds] by blast
  have d: "durJ (taskMap tasks ds) (id_task (tasks ! idx)) = max 0 (ds ! idx)
        \<and> durI (taskMap tasks ds) (id_task (tasks ! idx)) = max 0 (ds ! idx)"
    if "distinct (map id_task tasks)" "idx < length tasks" "idx < length ds"
      "id_task (tasks ! idx) \<noteq> START" "id_task (tasks ! idx) \<noteq> END" for idx
    using durJ_task [OF that] by simp
  show ?thesis unfolding Let_def using a b c d by blast
qed

lemma lead_preds: "preds (buildGraph leadExample) ''D'' = [''B'']"
  by (simp add: preds_def lead_graph distinct5 [OF lead_ids])

lemma lead_requiredStart:
  "requiredStart (taskMap leadExample [2, 10, 2] ''D'') (durJ (taskMap leadExample [2, 10, 2]) ''D'')
     (es (cpmTimes leadExample [2, 10, 2])) (ef (cpmTimes leadExample [2, 10, 2])) ''B'' = - 1"
  unfolding lead_taskMap lead_times
  by (simp add: requiredStart_def findDependency_def exampleTask_sel distinct5 [OF lead_ids])

text \<open>
  Claim C2 as stated fails: in the chain with a lead, D has the single predecessor B
  with the required start \<open>-1\<close>, and its earliest start is 0.
\<close>

theorem C2_negative_start_counterexample:
  "calculateCPM leadExample [2, 10, 2] \<noteq> None
   \<and> preds (buildGraph leadExample) ''D'' = [''B'']
   \<and> requiredStart (taskMap leadExample [2, 10, 2] ''D'')
        (durJ (taskMap leadExample [2, 10, 2]) ''D'')
        (es (cpmTimes leadExample [2, 10, 2])) (ef (cpmTimes leadExample [2, 10, 2])) ''B'' = - 1
   \<and> es (cpmTimes leadExample [2, 10, 2]) ''D'' = 0"
  using lead_preds lead_requiredStart
  by (simp add: lead_result lead_times distinct5 [OF lead_ids])

lemma lead_deps_once: "\<forall>t \<in> set leadExample. distinct (map predecessorId (dependencies t))"
  by (simp add: leadExample_def exampleTask_sel)

lemma lead_D_entry:
  "taskMap leadExample [2, 10, 2] ''D''
     = Some \<lparr>entry_task = exampleTask ''D'' 2 [\<lparr>predecessorId = ''B'', type_dep = FS, lag = - 13\<rparr>],
                 index = Suc (Suc 0), entry_duration = Some 2\<rparr>"
  unfolding lead_taskMap by simp

theorem C2_forward_pass_clamped_witness:
  "es (cpmTimes leadExample [2, 10, 2]) ''D'' = Max {0, - 1}
   \<and> ef (cpmTimes leadExample [2, 10, 2]) ''D''
       = es (cpmTimes leadExample [2, 10, 2]) ''D'' + durJ (taskMap leadExample [2, 10, 2]) ''D''
   \<and> es (cpmTimes leadExample [2, 10, 2]) START = 0
   \<and> requiredStart (taskMap leadExample [2, 10, 2] ''D'') 2 (\<lambda>i. 0) (\<lambda>i. 12) ''B'' = 12 + (- 13)"
proof -
  have n: "''D'' \<in> set (nodes (buildGraph leadExample))" "''D'' \<noteq> START"
    by (simp_all add: lead_graph START_def)
  note C = C2_forward_pass_clamped [OF lead_result lead_deps_once, unfolded Let_def]
  have s: "es (cpmTimes leadExample [2, 10, 2]) START = 0" using C by blast
  have "es (cpmTimes leadExample [2, 10, 2]) ''D''
          = Max (insert 0 ((\<lambda>i. requiredStart (taskMap leadExample [2, 10, 2] ''D'')
                                  (durJ (taskMap leadExample [2, 10, 2]) ''D'')
                                  (es (cpmTimes leadExample [2, 10, 2]))
                                  (ef (cpmTimes leadExample [2, 10, 2])) i)
                            ` set (preds (buildGraph leadExample) ''D'')))
        \<and> ef (cpmTimes leadExample [2, 10, 2]) ''D''
          = es (cpmTimes leadExample [2, 10, 2]) ''D'' + durJ (taskMap leadExample [2, 10, 2]) ''D''"
    using C n by blast
  then have first: "es (cpmTimes leadExample [2, 10, 2]) ''D'' = Max {0, - 1}
   \<and> ef (cpmTimes leadExample [2, 10, 2]) ''D''
       = es (cpmTimes leadExample [2, 10, 2]) ''D'' + durJ (taskMap leadExample [2, 10, 2]) ''D''"
    unfolding lead_preds by (simp add: lead_requiredStart)
  have D: "\<forall>e dep. taskMap leadExample [2, 10, 2] ''D'' = Some e
              \<and> dep \<in> set (dependencies (entry_task e)) \<and> predecessorId dep = ''B'' \<longrightarrow>
             requiredStart (taskMap leadExample [2, 10, 2] ''D'') 2 (\<lambda>i. 0) (\<lambda>i. 12) ''B'' =
               (case type_dep dep of
                  FS \<Rightarrow> (\<lambda>i. 12) ''B'' + lag dep
                | SS \<Rightarrow> (\<lambda>i. 0) ''B'' + lag dep
                | FF \<Rightarrow> (\<lambda>i. 12) ''B'' + lag dep - 2
                | SF \<Rightarrow> (\<lambda>i. 0) ''B'' + lag dep - 2
                | OtherType \<Rightarrow> (\<lambda>i. 12) ''B'' + lag dep)"
    using C by blast
  have "requiredStart (taskMap leadExample [2, 10, 2] ''D'') 2 (\<lambda>i. 0) (\<lambda>i. 12) ''B'' = 12 + (- 13)"
    using D [rule_format, of "\<lparr>entry_task = exampleTask ''D'' 2 [\<lparr>predecessorId = ''B'', type_dep = FS, lag = - 13\<rparr>],
                 index = Suc (Suc 0), entry_duration = Some 2\<rparr>" "\<lparr>predecessorId = ''B'', type_dep = FS, lag = - 13\<rparr>"]
    by (simp add: lead_D_entry exampleTask_sel)
  then show ?thesis using first s by simp
qed

text \<open>
  In the chain with a lead, task A has slack \<open>-10\<close> and finishes with the project: it
  is marked critical by the second test alone.
\<close>

theorem C3_critical_path_marking_witness:
  "calculateCPM leadExample [2, 10, 2] =
     Some \<lparr>totalDuration = 2, criticalPathTasks = [''A'', ''D''],
           taskTimings = [''A'' \<mapsto> \<lparr>es_t = 0, ef_t = 2\<rparr>, ''B'' \<mapsto> \<lparr>es_t = 2, ef_t = 12\<rparr>,
                          ''D'' \<mapsto> \<lparr>es_t = 0, ef_t = 2\<rparr>]\<rparr>
   \<and> ls (cpmTimes leadExample [2, 10, 2]) ''A'' - es (cpmTimes leadExample [2, 10, 2]) ''A'' = - 10
   \<and> ef (cpmTimes leadExample [2, 10, 2]) ''A'' = 2
   \<and> (''A'' \<in> set [''A'', ''D''] \<longleftrightarrow>
        ''A'' \<in> id_task ` set leadExample
        \<and> (\<bar>ls (cpmTimes leadExample [2, 10, 2]) ''A'' - es (cpmTimes leadExample [2, 10, 2]) ''A''\<bar> < 1 / 10 ^ 6
           \<or> \<bar>ef (cpmTimes leadExample [2, 10, 2]) ''A'' - 2\<bar> < 1 / 10 ^ 6))"
proof -
  have t: "ls (cpmTimes leadExample [2, 10, 2]) ''A'' - es (cpmTimes leadExample [2, 10, 2]) ''A'' = - 10"
    "ef (cpmTimes leadExample [2, 10, 2]) ''A'' = 2"
    by (simp_all add: lead_times distinct5 [OF lead_ids])
  have m: "''A'' \<in> id_task ` set leadExample"
    by (simp add: leadExample_def exampleTask_sel)
  show ?thesis
    using C3_critical_path_marking [OF lead_result] lead_result t m
    unfolding Let_def by simp
qed

lemma single_ne:
  "START \<noteq> END" "END \<noteq> START" "START \<noteq> ''A''" "''A'' \<noteq> START" "END \<noteq> ''A''" "''A'' \<noteq> END"
  by (simp_all add: START_def END_def)

lemma single_graph:
  "buildGraph singleExample =
     \<lparr>nodes = [START, END, ''A''], adj = [(''A'', [END]), (START, [''A''])],
      revAdj = [(''A'', [START]), (END, [''A''])]\<rparr>"
  by (simp add: singleExample_def exampleTask_sel buildGraph_def initGraph_def linkTask_def
      linkEnd_def addEdge_def push_at_def set_add_def Let_def single_ne)

lemma single_topo:
  "topoSort \<lparr>nodes = [START, END, ''A''], adj = [(''A'', [END]), (START, [''A''])],
      revAdj = [(''A'', [START]), (END, [''A''])]\<rparr> = [START, ''A'', END]"
  by (simp add: topoSort_def countInDegree_def relaxAll_def relax_def Let_def single_ne)

lemma single_times:
  "cpmTimes singleExample [- 3] =
     \<lparr>es = (\<lambda>node. 0)(''A'' := 0, END := 0), ef = (\<lambda>node. 0)(''A'' := 0, END := 0),
      ls = (\<lambda>node. 0)(''A'' := 0, START := 0), lf = (\<lambda>node. 0)(''A'' := 0, START := 0)\<rparr>"
proof -
  have tm: "taskMap singleExample [- 3]
      = [''A'' \<mapsto> \<lparr>entry_task = exampleTask ''A'' 0 [], index = 0, entry_duration = Some (- 3)\<rparr>]"
    by (simp add: taskMap_def singleExample_def exampleTask_sel)
  show ?thesis
    unfolding cpmTimes_def Let_def single_graph single_topo tm
    by (simp add: forwardPass_def forwardStep_def requiredStart_def findDependency_def
        durationOf_def backwardPass_def backwardStep_def requiredFinish_def Let_def
        exampleTask_sel single_ne)
qed

lemma single_result:
  "calculateCPM singleExample [- 3] =
     Some \<lparr>totalDuration = 0, criticalPathTasks = [''A''],
           taskTimings = [''A'' \<mapsto> \<lparr>es_t = 0, ef_t = 0\<rparr>]\<rparr>"
  unfolding calculateCPM_def Let_def single_times single_graph single_topo
  by (simp add: isCritical_def MIN_SLACK_TOLERANCE_def set_add_def
      singleExample_def exampleTask_sel single_ne)

theorem C10_durations_clamped_witness:
  "calculateCPM singleExample [- 3] =
     Some \<lparr>totalDuration = 0, criticalPathTasks = [''A''],
           taskTimings = [''A'' \<mapsto> \<lparr>es_t = 0, ef_t = 0\<rparr>]\<rparr>
   \<and> durJ (taskMap singleExample [- 3]) ''A'' = 0
   \<and> ef (cpmTimes singleExample [- 3]) ''A'' = es (cpmTimes singleExample [- 3]) ''A'' + 0
   \<and> ls (cpmTimes singleExample [- 3]) ''A'' = lf (cpmTimes singleExample [- 3]) ''A'' - 0"
proof -
  have n: "''A'' \<in> set (nodes (buildGraph singleExample))" "''A'' \<noteq> START" "''A'' \<noteq> END"
    by (simp_all add: single_graph START_def END_def)
  have i: "distinct (map id_task singleExample)" "0 < length singleExample"
    "id_task (singleExample ! 0) = ''A''"
    by (simp_all add: singleExample_def exampleTask_sel)
  note C = C10_durations_clamped [OF single_result, unfolded Let_def]
  have d: "durJ (taskMap singleExample [- 3]) ''A'' = max 0 (- 3)
         \<and> durI (taskMap singleExample [- 3]) ''A'' = max 0 (- 3)"
    using C i n(2,3) by (metis length_Cons nth_Cons_0 zero_less_Suc)
  have e: "ef (cpmTimes singleExample [- 3]) ''A''
            = es (cpmTimes singleExample [- 3]) ''A'' + durJ (taskMap singleExample [- 3]) ''A''
         \<and> ls (cpmTimes singleExample [- 3]) ''A''
            = lf (cpmTimes singleExample [- 3]) ''A'' - durI (taskMap singleExample [- 3]) ''A''"
    using C n by blast
  show ?thesis using d e single_result by simp
qed

section \<open>Properties of the Monte Carlo engine\<close>

lemma calculateCPM_None_iff: "calculateCPM tasks ds = None \<longleftrightarrow> \<not> schedulable tasks"
  by (simp add: calculateCPM_def schedulable_def Let_def)

lemma fold_indices:
  assumes "k \<le> length s"
  shows "length (fold (\<lambda>idx samples. samples[idx := h idx (samples ! idx)]) [0..<k] s) = length s
     \<and> (\<forall>i < length s.
          fold (\<lambda>idx samples. samples[idx := h idx (samples ! idx)]) [0..<k] s ! i
          = (if i < k then h i (s ! i) else s ! i))"
  using assms
proof (induction k)
  case 0
  show ?case by simp
next
  case (Suc k)
  then have IH: "length (fold (\<lambda>idx samples. samples[idx := h idx (samples ! idx)]) [0..<k] s) = length s"
    "\<And>i. i < length s \<Longrightarrow>
          fold (\<lambda>idx samples. samples[idx := h idx (samples ! idx)]) [0..<k] s ! i
          = (if i < k then h i (s ! i) else s ! i)"
    by simp_all
  have k: "k < length s" using Suc.prems by simp
  show ?case
    using IH k by (auto simp: nth_list_update less_Suc_eq)
qed

lemma pushSamples_nth:
  assumes "length samples = length tasks"
  shows "length (pushSamples tasks vs samples) = length tasks"
    and "idx < length tasks \<Longrightarrow> pushSamples tasks vs samples ! idx = samples ! idx @ [vs ! idx]"
  using fold_indices [of "length tasks" samples "\<lambda>idx xs. xs @ [vs ! idx]"] assms
  by (simp_all add: pushSamples_def)

lemma popSamples_nth:
  assumes "length samples = length tasks"
  shows "length (popSamples tasks samples) = length tasks"
    and "idx < length tasks \<Longrightarrow> popSamples tasks samples ! idx = butlast (samples ! idx)"
  using fold_indices [of "length tasks" samples "\<lambda>idx xs. butlast xs"] assms
  by (simp_all add: popSamples_def)

lemma recordTimings_other:
  "k \<notin> id_task ` set ts \<Longrightarrow> recordTimings ts timings all k = all k"
  unfolding recordTimings_def
  by (induction ts arbitrary: all) (auto split: option.split)

lemma recordTimings_task:
  assumes "distinct (map id_task ts)" "t \<in> set ts"
    and "all (id_task t) = Some s" "timings (id_task t) = Some tm"
  shows "recordTimings ts timings all (id_task t)
         = Some \<lparr>starts = starts s @ [es_t tm], finishes = finishes s @ [ef_t tm]\<rparr>"
  using assms
proof (induction ts arbitrary: all)
  case Nil
  then show ?case by simp
next
  case (Cons a ts)
  define all1 where "all1 = (case (all (id_task a), timings (id_task a)) of
               (Some s, Some t) \<Rightarrow>
                 all(id_task a \<mapsto> \<lparr>starts = starts s @ [es_t t], finishes = finishes s @ [ef_t t]\<rparr>)
             | _ \<Rightarrow> all)"
  have r: "recordTimings (a # ts) timings all = recordTimings ts timings all1"
    by (simp add: recordTimings_def all1_def)
  show ?case
  proof (cases "t = a")
    case True
    have "id_task a \<notin> id_task ` set ts" using Cons.prems(1) by auto
    then have "recordTimings ts timings all1 (id_task a) = all1 (id_task a)"
      by (rule recordTimings_other)
    then show ?thesis using True Cons.prems(3,4) by (simp add: r all1_def)
  next
    case False
    then have t: "t \<in> set ts" using Cons.prems(2) by simp
    have "id_task a \<noteq> id_task t" using Cons.prems(1) t by auto
    then have "all1 (id_task t) = Some s"
      using Cons.prems(3) by (auto simp: all1_def split: option.split)
    then show ?thesis unfolding r using Cons.prems(1,4) t by (intro Cons.IH) simp_all
  qed
qed


lemma trial_cases:
  assumes "trial R tasks acc g = Some (acc', g')"
  obtains ds g1 cs where "runDurations R tasks g = Some (ds, g1)" "runCosts R tasks g1 = (cs, g')"
    and "acc' =
      (let acc1 = acc\<lparr>acc_taskDurationSamples := pushSamples tasks ds (acc_taskDurationSamples acc),
                       acc_taskCostSamples := pushSamples tasks cs (acc_taskCostSamples acc)\<rparr>
       in case calculateCPM tasks ds of
            Some c \<Rightarrow>
              acc1\<lparr>acc_simulationRuns :=
                     acc_simulationRuns acc1 @
                     [\<lparr>run_totalDuration = totalDuration c,
                       totalCost = fold (\<lambda>c s. s + c) cs 0,
                       run_criticalPathTasks = criticalPathTasks c\<rparr>],
                   criticalCounts := countCritical tasks (criticalPathTasks c) (criticalCounts acc1),
                   acc_allTaskTimings := recordTimings tasks (taskTimings c) (acc_allTaskTimings acc1)\<rparr>
          | None \<Rightarrow>
              acc1\<lparr>acc_taskDurationSamples := popSamples tasks (acc_taskDurationSamples acc1),
                   acc_taskCostSamples := popSamples tasks (acc_taskCostSamples acc1)\<rparr>)"
proof -
  obtain ds g1 where d: "runDurations R tasks g = Some (ds, g1)"
    using assms by (cases "runDurations R tasks g") (auto simp: trial_def)
  obtain cs g2 where c: "runCosts R tasks g1 = (cs, g2)" by (cases "runCosts R tasks g1")
  show ?thesis
    using assms that [OF d, of cs]
    by (cases "calculateCPM tasks ds") (auto simp: trial_def d c Let_def)
qed

lemma trial_samples:
  assumes inv: "samplesInv tasks acc" and t: "trial R tasks acc g = Some (acc', g')"
  shows "samplesInv tasks acc'"
    and "length (acc_simulationRuns acc')
         = length (acc_simulationRuns acc) + (if schedulable tasks then 1 else 0)"
proof -
  from t obtain ds g1 cs where acc': "acc' =
      (let acc1 = acc\<lparr>acc_taskDurationSamples := pushSamples tasks ds (acc_taskDurationSamples acc),
                       acc_taskCostSamples := pushSamples tasks cs (acc_taskCostSamples acc)\<rparr>
       in case calculateCPM tasks ds of
            Some c \<Rightarrow>
              acc1\<lparr>acc_simulationRuns :=
                     acc_simulationRuns acc1 @
                     [\<lparr>run_totalDuration = totalDuration c,
                       totalCost = fold (\<lambda>c s. s + c) cs 0,
                       run_criticalPathTasks = criticalPathTasks c\<rparr>],
                   criticalCounts := countCritical tasks (criticalPathTasks c) (criticalCounts acc1),
                   acc_allTaskTimings := recordTimings tasks (taskTimings c) (acc_allTaskTimings acc1)\<rparr>
          | None \<Rightarrow>
              acc1\<lparr>acc_taskDurationSamples := popSamples tasks (acc_taskDurationSamples acc1),
                   acc_taskCostSamples := popSamples tasks (acc_taskCostSamples acc1)\<rparr>)"
    by (rule trial_cases)
  have ld: "length (acc_taskDurationSamples acc) = length tasks"
    and lc: "length (acc_taskCostSamples acc) = length tasks"
    and each: "\<And>idx. idx < length tasks \<Longrightarrow>
         length (acc_taskDurationSamples acc ! idx) = length (acc_simulationRuns acc) \<and>
         length (acc_taskCostSamples acc ! idx) = length (acc_simulationRuns acc)"
    using inv by (simp_all add: samplesInv_def)
  note pd = pushSamples_nth [OF ld, where vs = ds]
    and pc = pushSamples_nth [OF lc, where vs = cs]
  show "samplesInv tasks acc'"
       "length (acc_simulationRuns acc')
         = length (acc_simulationRuns acc) + (if schedulable tasks then 1 else 0)"
  proof (atomize (full), cases "calculateCPM tasks ds")
    case None
    then have ns: "\<not> schedulable tasks" by (simp add: calculateCPM_None_iff)
    have a: "acc' = acc\<lparr>acc_taskDurationSamples :=
                           popSamples tasks (pushSamples tasks ds (acc_taskDurationSamples acc)),
                         acc_taskCostSamples :=
                           popSamples tasks (pushSamples tasks cs (acc_taskCostSamples acc))\<rparr>"
      using None by (simp add: acc' Let_def)
    show "samplesInv tasks acc' \<and>
      length (acc_simulationRuns acc')
         = length (acc_simulationRuns acc) + (if schedulable tasks then 1 else 0)"
      using ns each
      by (simp add: a samplesInv_def popSamples_nth [OF pd(1)] popSamples_nth [OF pc(1)] pd(2) pc(2))
  next
    case (Some c)
    then have sc: "schedulable tasks" using calculateCPM_None_iff [of tasks ds] by simp
    have a: "acc_taskDurationSamples acc' = pushSamples tasks ds (acc_taskDurationSamples acc)"
      "acc_taskCostSamples acc' = pushSamples tasks cs (acc_taskCostSamples acc)"
      "length (acc_simulationRuns acc') = Suc (length (acc_simulationRuns acc))"
      using Some by (simp_all add: acc' Let_def)
    show "samplesInv tasks acc' \<and>
      length (acc_simulationRuns acc')
         = length (acc_simulationRuns acc) + (if schedulable tasks then 1 else 0)"
      using sc each by (simp add: a samplesInv_def pd pc)
  qed
qed

lemma trial_timings:
  assumes d: "distinct (map id_task tasks)" and inv: "timingsInv tasks acc"
    and t: "trial R tasks acc g = Some (acc', g')"
  shows "timingsInv tasks acc'"
proof -
  from t obtain ds g1 cs where acc': "acc' =
      (let acc1 = acc\<lparr>acc_taskDurationSamples := pushSamples tasks ds (acc_taskDurationSamples acc),
                       acc_taskCostSamples := pushSamples tasks cs (acc_taskCostSamples acc)\<rparr>
       in case calculateCPM tasks ds of
            Some c \<Rightarrow>
              acc1\<lparr>acc_simulationRuns :=
                     acc_simulationRuns acc1 @
                     [\<lparr>run_totalDuration = totalDuration c,
                       totalCost = fold (\<lambda>c s. s + c) cs 0,
                       run_criticalPathTasks = criticalPathTasks c\<rparr>],
                   criticalCounts := countCritical tasks (criticalPathTasks c) (criticalCounts acc1),
                   acc_allTaskTimings := recordTimings tasks (taskTimings c) (acc_allTaskTimings acc1)\<rparr>
          | None \<Rightarrow>
              acc1\<lparr>acc_taskDurationSamples := popSamples tasks (acc_taskDurationSamples acc1),
                   acc_taskCostSamples := popSamples tasks (acc_taskCostSamples acc1)\<rparr>)"
    by (rule trial_cases)
  show ?thesis
  proof (cases "calculateCPM tasks ds")
    case None
    then have "acc_allTaskTimings acc' = acc_allTaskTimings acc"
      "acc_simulationRuns acc' = acc_simulationRuns acc"
      by (simp_all add: acc' Let_def)
    then show ?thesis using inv by (simp add: timingsInv_def)
  next
    case (Some c)
    then have a: "acc_allTaskTimings acc' = recordTimings tasks (taskTimings c) (acc_allTaskTimings acc)"
      "length (acc_simulationRuns acc') = Suc (length (acc_simulationRuns acc))"
      by (simp_all add: acc' Let_def)
    show ?thesis unfolding timingsInv_def
    proof
      fix t assume tin: "t \<in> set tasks"
      obtain s where s: "acc_allTaskTimings acc (id_task t) = Some s"
        "length (starts s) = length (acc_simulationRuns acc)"
        "length (finishes s) = length (acc_simulationRuns acc)"
        using inv tin by (auto simp: timingsInv_def)
      have "taskTimings c (id_task t)
            = Some \<lparr>es_t = es (cpmTimes tasks ds) (id_task t), ef_t = ef (cpmTimes tasks ds) (id_task t)\<rparr>"
        using tin by (simp add: taskTimings_eq [OF Some])
      then have "acc_allTaskTimings acc' (id_task t)
            = Some \<lparr>starts = starts s @ [es (cpmTimes tasks ds) (id_task t)],
                    finishes = finishes s @ [ef (cpmTimes tasks ds) (id_task t)]\<rparr>"
        unfolding a(1)
        using recordTimings_task [where all = "acc_allTaskTimings acc" and timings = "taskTimings c",
            OF d tin s(1)] by simp
      then show "\<exists>s. acc_allTaskTimings acc' (id_task t) = Some s \<and>
            length (starts s) = length (acc_simulationRuns acc') \<and>
            length (finishes s) = length (acc_simulationRuns acc')"
        using s(2,3) a(2) by simp
    qed
  qed
qed

lemma mcLoop_inv:
  assumes "mcLoop R tasks n acc g = Some (acc', g')" "samplesInv tasks acc"
  shows "samplesInv tasks acc'"
    and "length (acc_simulationRuns acc')
         = length (acc_simulationRuns acc) + (if schedulable tasks then n else 0)"
    and "distinct (map id_task tasks) \<Longrightarrow> timingsInv tasks acc \<Longrightarrow> timingsInv tasks acc'"
  using assms
proof (induction n arbitrary: acc g)
  case 0
  {
    case 1 then show ?case by simp
  next
    case 2 then show ?case by simp
  next
    case 3 then show ?case by simp
  }
next
  case (Suc n)
  {
    case 1
    then obtain a1 g1 where t: "trial R tasks acc g = Some (a1, g1)"
      and l: "mcLoop R tasks n a1 g1 = Some (acc', g')"
      by (cases "trial R tasks acc g") auto
    show ?case using Suc.IH(1) [OF l trial_samples(1) [OF 1(2) t]] .
  next
    case 2
    then obtain a1 g1 where t: "trial R tasks acc g = Some (a1, g1)"
      and l: "mcLoop R tasks n a1 g1 = Some (acc', g')"
      by (cases "trial R tasks acc g") auto
    show ?case
      using Suc.IH(2) [OF l trial_samples(1) [OF 2(2) t]] trial_samples(2) [OF 2(2) t] by simp
  next
    case 3
    then obtain a1 g1 where t: "trial R tasks acc g = Some (a1, g1)"
      and l: "mcLoop R tasks n a1 g1 = Some (acc', g')"
      by (cases "trial R tasks acc g") auto
    show ?case
      using Suc.IH(3) [OF 3(1) trial_timings [OF 3(1,2) t] l trial_samples(1) [OF 3(4) t]] .
  }
qed

lemma init_inv:
  "samplesInv tasks (initAccumulators tasks)" "timingsInv tasks (initAccumulators tasks)"
  "acc_simulationRuns (initAccumulators tasks) = []"
proof -
  have "fold (\<lambda>task acc. acc(id_task task \<mapsto> \<lparr>starts = [], finishes = []\<rparr>)) tasks Map.empty k
        = (if k \<in> id_task ` set tasks then Some \<lparr>starts = [], finishes = []\<rparr> else None)" for k
    using fold_map_upd [of id_task "\<lambda>k. \<lparr>starts = [], finishes = []\<rparr>" tasks Map.empty k] by simp
  then show "timingsInv tasks (initAccumulators tasks)"
    by (simp add: timingsInv_def initAccumulators_def)
  show "samplesInv tasks (initAccumulators tasks)"
    by (simp add: samplesInv_def initAccumulators_def)
  show "acc_simulationRuns (initAccumulators tasks) = []"
    by (simp add: initAccumulators_def)
qed

lemma finishSimulation_cases:
  "acc_simulationRuns acc = [] \<Longrightarrow> finishSimulation tasks acc = emptyResult"
  "acc_simulationRuns acc \<noteq> [] \<Longrightarrow>
   finishSimulation tasks acc =
     \<lparr>simulationRuns = acc_simulationRuns acc, analysis = Some (buildAnalysis tasks acc),
      taskDurationSamples = acc_taskDurationSamples acc,
      taskCostSamples = acc_taskCostSamples acc,
      allTaskTimings = acc_allTaskTimings acc\<rparr>"
  by (simp_all add: finishSimulation_def emptyResult_def)

lemma run_cases:
  assumes "runMonteCarloSimulation R tasks numRuns g = Some (res, g')"
  obtains acc where "mcLoop R tasks numRuns (initAccumulators tasks) g = Some (acc, g')"
    "res = finishSimulation tasks acc"
  using assms
  by (cases "mcLoop R tasks numRuns (initAccumulators tasks) g")
     (auto simp: runMonteCarloSimulation_def)

lemma pop_push:
  assumes "length samples = length tasks"
  shows "popSamples tasks (pushSamples tasks vs samples) = samples"
proof (rule nth_equalityI)
  note p = pushSamples_nth [OF assms, where vs = vs]
  show "length (popSamples tasks (pushSamples tasks vs samples)) = length samples"
    using popSamples_nth(1) [OF p(1)] assms by simp
  show "popSamples tasks (pushSamples tasks vs samples) ! i = samples ! i"
    if "i < length (popSamples tasks (pushSamples tasks vs samples))" for i
  proof -
    have i: "i < length tasks" using that popSamples_nth(1) [OF p(1)] by simp
    show ?thesis using popSamples_nth(2) [OF p(1) i] p(2) [OF i] by simp
  qed
qed

lemma trial_discards:
  assumes "length (acc_taskDurationSamples acc) = length tasks"
    and "length (acc_taskCostSamples acc) = length tasks"
    and t: "trial R tasks acc g = Some (acc', g')"
    and ns: "\<not> schedulable tasks"
  shows "acc' = acc"
proof -
  from t obtain ds g1 cs where acc': "acc' =
      (let acc1 = acc\<lparr>acc_taskDurationSamples := pushSamples tasks ds (acc_taskDurationSamples acc),
                       acc_taskCostSamples := pushSamples tasks cs (acc_taskCostSamples acc)\<rparr>
       in case calculateCPM tasks ds of
            Some c \<Rightarrow>
              acc1\<lparr>acc_simulationRuns :=
                     acc_simulationRuns acc1 @
                     [\<lparr>run_totalDuration = totalDuration c,
                       totalCost = fold (\<lambda>c s. s + c) cs 0,
                       run_criticalPathTasks = criticalPathTasks c\<rparr>],
                   criticalCounts := countCritical tasks (criticalPathTasks c) (criticalCounts acc1),
                   acc_allTaskTimings := recordTimings tasks (taskTimings c) (acc_allTaskTimings acc1)\<rparr>
          | None \<Rightarrow>
              acc1\<lparr>acc_taskDurationSamples := popSamples tasks (acc_taskDurationSamples acc1),
                   acc_taskCostSamples := popSamples tasks (acc_taskCostSamples acc1)\<rparr>)"
    by (rule trial_cases)
  have "calculateCPM tasks ds = None" using ns by (simp add: calculateCPM_None_iff)
  then show ?thesis
    by (simp add: acc' Let_def pop_push [OF assms(1)] pop_push [OF assms(2)])
qed

text \<open>
  Claim C5. A trial whose scheduling fails leaves the accumulators as they were: the
  samples it appended are popped again and no run is recorded. So when the loop of
  \<open>runMonteCarloSimulation\<close> ends, the number of valid runs is \<open>numRuns\<close> if the tasks can
  be scheduled and 0 otherwise (a failed trial is not counted and not retried), there is
  one duration-sample and one cost-sample sequence per task, each as long as the list of
  valid runs, and, the task ids being unique, one earliest-start and one earliest-finish
  sequence per task of that length. The result returned holds these sequences when there
  is a valid run, and no sequence at all when there is none.
\<close>

theorem C5_sample_sequences_match_valid_runs:
  assumes "runMonteCarloSimulation R tasks numRuns g = Some (res, g')"
  shows "\<exists>acc. mcLoop R tasks numRuns (initAccumulators tasks) g = Some (acc, g')
    \<and> res = finishSimulation tasks acc
    \<and> length (acc_simulationRuns acc) = (if schedulable tasks then numRuns else 0)
    \<and> length (acc_taskDurationSamples acc) = length tasks
    \<and> length (acc_taskCostSamples acc) = length tasks
    \<and> (\<forall>idx < length tasks.
          length (acc_taskDurationSamples acc ! idx) = length (acc_simulationRuns acc)
          \<and> length (acc_taskCostSamples acc ! idx) = length (acc_simulationRuns acc))
    \<and> (distinct (map id_task tasks) \<longrightarrow>
          (\<forall>t \<in> set tasks.
             \<exists>s. acc_allTaskTimings acc (id_task t) = Some s
                 \<and> length (starts s) = length (acc_simulationRuns acc)
                 \<and> length (finishes s) = length (acc_simulationRuns acc)))
    \<and> (\<forall>a h a' h'.
          length (acc_taskDurationSamples a) = length tasks
          \<and> length (acc_taskCostSamples a) = length tasks
          \<and> trial R tasks a h = Some (a', h') \<and> \<not> schedulable tasks \<longrightarrow> a' = a)
    \<and> length (simulationRuns res) = (if schedulable tasks then numRuns else 0)
    \<and> (simulationRuns res \<noteq> [] \<longrightarrow>
         length (taskDurationSamples res) = length tasks
         \<and> length (taskCostSamples res) = length tasks
         \<and> (\<forall>idx < length tasks.
               length (taskDurationSamples res ! idx) = length (simulationRuns res)
               \<and> length (taskCostSamples res ! idx) = length (simulationRuns res))
         \<and> (distinct (map id_task tasks) \<longrightarrow>
               (\<forall>t \<in> set tasks.
                  \<exists>s. allTaskTimings res (id_task t) = Some s
                      \<and> length (starts s) = length (simulationRuns res)
                      \<and> length (finishes s) = length (simulationRuns res))))
    \<and> (simulationRuns res = [] \<longrightarrow>
         taskDurationSamples res = [] \<and> taskCostSamples res = []
         \<and> allTaskTimings res = Map.empty)"
proof -
  from assms obtain acc where l: "mcLoop R tasks numRuns (initAccumulators tasks) g = Some (acc, g')"
    and res: "res = finishSimulation tasks acc"
    by (rule run_cases)
  note inv = mcLoop_inv [OF l init_inv(1)]
  have n: "length (acc_simulationRuns acc) = (if schedulable tasks then numRuns else 0)"
    using inv(2) by (simp add: init_inv(3))
  have t: "timingsInv tasks acc" if "distinct (map id_task tasks)"
    using inv(3) [OF that init_inv(2)] .
  have lens: "length (acc_taskDurationSamples acc) = length tasks"
    "length (acc_taskCostSamples acc) = length tasks"
    using inv(1) by (simp_all add: samplesInv_def)
  have each: "\<forall>idx < length tasks.
          length (acc_taskDurationSamples acc ! idx) = length (acc_simulationRuns acc)
          \<and> length (acc_taskCostSamples acc ! idx) = length (acc_simulationRuns acc)"
    using inv(1) by (simp add: samplesInv_def)
  have tim: "distinct (map id_task tasks) \<longrightarrow>
          (\<forall>t \<in> set tasks.
             \<exists>s. acc_allTaskTimings acc (id_task t) = Some s
                 \<and> length (starts s) = length (acc_simulationRuns acc)
                 \<and> length (finishes s) = length (acc_simulationRuns acc))"
    using t by (simp add: timingsInv_def)
  have disc: "\<forall>a h a' h'.
          length (acc_taskDurationSamples a) = length tasks
          \<and> length (acc_taskCostSamples a) = length tasks
          \<and> trial R tasks a h = Some (a', h') \<and> \<not> schedulable tasks \<longrightarrow> a' = a"
  proof (intro allI impI)
    fix a :: accumulators and h :: 'a and a' h'
    assume "length (acc_taskDurationSamples a) = length tasks
          \<and> length (acc_taskCostSamples a) = length tasks
          \<and> trial R tasks a h = Some (a', h') \<and> \<not> schedulable tasks"
    then show "a' = a" using trial_discards [of a tasks R h a' h'] by simp
  qed
  have r: "length (simulationRuns res) = (if schedulable tasks then numRuns else 0)
    \<and> (simulationRuns res \<noteq> [] \<longrightarrow>
         length (taskDurationSamples res) = length tasks
         \<and> length (taskCostSamples res) = length tasks
         \<and> (\<forall>idx < length tasks.
               length (taskDurationSamples res ! idx) = length (simulationRuns res)
               \<and> length (taskCostSamples res ! idx) = length (simulationRuns res))
         \<and> (distinct (map id_task tasks) \<longrightarrow>
               (\<forall>t \<in> set tasks.
                  \<exists>s. allTaskTimings res (id_task t) = Some s
                      \<and> length (starts s) = length (simulationRuns res)
                      \<and> length (finishes s) = length (simulationRuns res))))
    \<and> (simulationRuns res = [] \<longrightarrow>
         taskDurationSamples res = [] \<and> taskCostSamples res = []
         \<and> allTaskTimings res = Map.empty)"
  proof (cases "acc_simulationRuns acc = []")
    case True
    then show ?thesis using n by (simp add: res finishSimulation_cases(1) emptyResult_def)
  next
    case False
    show ?thesis
      using False n inv(1) t
      by (simp add: res finishSimulation_cases(2) samplesInv_def timingsInv_def)
  qed
  note r1 = r [THEN conjunct1] and r2 = r [THEN conjunct2, THEN conjunct1]
    and r3 = r [THEN conjunct2, THEN conjunct2]
  show ?thesis
    apply (rule exI [of _ acc])
    apply (rule conjI, rule l)
    apply (rule conjI, rule res)
    apply (rule conjI, rule n)
    apply (rule conjI, rule lens(1))
    apply (rule conjI, rule lens(2))
    apply (rule conjI, rule each)
    apply (rule conjI, rule tim)
    apply (rule conjI, rule disc)
    apply (rule conjI, rule r1)
    apply (rule conjI, rule r2)
    apply (rule r3)
    done
qed

lemma run_valid_count:
  assumes "runMonteCarloSimulation R tasks numRuns g = Some (res, g')"
  shows "length (simulationRuns res) = (if schedulable tasks then numRuns else 0)"
    and "numRuns = 0 \<or> \<not> schedulable tasks \<Longrightarrow> res = emptyResult"
proof -
  from assms obtain acc where l: "mcLoop R tasks numRuns (initAccumulators tasks) g = Some (acc, g')"
    and res: "res = finishSimulation tasks acc"
    by (rule run_cases)
  have n: "length (acc_simulationRuns acc) = (if schedulable tasks then numRuns else 0)"
    using mcLoop_inv(2) [OF l init_inv(1)] by (simp add: init_inv(3))
  show "length (simulationRuns res) = (if schedulable tasks then numRuns else 0)"
    using n by (cases "acc_simulationRuns acc = []")
      (simp_all add: res finishSimulation_cases emptyResult_def)
  show "res = emptyResult" if "numRuns = 0 \<or> \<not> schedulable tasks"
    using that n by (auto simp: res finishSimulation_cases(1))
qed

lemma sampleDuration_total:
  assumes "distType t \<noteq> Normal" "distType t \<noteq> LogNormal"
  shows "\<exists>d g'. sampleDuration R t g = Some (d, g')"
proof (cases "distType t")
  case PERT
  obtain x g' where "randomPERT R (min_est (duration t)) (likely (duration t)) (max_est (duration t)) 4 g = (x, g')"
    by (cases "randomPERT R (min_est (duration t)) (likely (duration t)) (max_est (duration t)) 4 g")
  then show ?thesis using PERT by (cases x) (simp_all add: sampleDuration_def)
next
  case Triangular
  then show ?thesis
    by (cases "randomTriangular R (min_est (duration t)) (likely (duration t)) (max_est (duration t)) g")
       (simp add: sampleDuration_def)
next
  case OtherDist
  then show ?thesis
    by (cases "randomTriangular R (min_est (duration t)) (likely (duration t)) (max_est (duration t)) g")
       (simp add: sampleDuration_def)
qed (use assms in simp_all)

lemma runDurations_total:
  assumes "\<forall>t \<in> set tasks. distType t \<noteq> Normal \<and> distType t \<noteq> LogNormal"
  shows "\<exists>ds g'. runDurations R tasks g = Some (ds, g')"
  using assms
proof (induction tasks arbitrary: g)
  case Nil
  show ?case by simp
next
  case (Cons t tasks)
  obtain d g1 where d: "sampleDuration R t g = Some (d, g1)"
    using sampleDuration_total [of t R g] Cons.prems by auto
  obtain ds g2 where "runDurations R tasks g1 = Some (ds, g2)"
    using Cons.IH [of g1] Cons.prems by auto
  then show ?case by (simp add: d)
qed

lemma trial_total:
  assumes "\<forall>t \<in> set tasks. distType t \<noteq> Normal \<and> distType t \<noteq> LogNormal"
  shows "\<exists>acc' g'. trial R tasks acc g = Some (acc', g')"
proof -
  obtain ds g1 where d: "runDurations R tasks g = Some (ds, g1)"
    using runDurations_total [OF assms, of R g] by blast
  obtain cs g2 where c: "runCosts R tasks g1 = (cs, g2)" by (cases "runCosts R tasks g1")
  show ?thesis
    by (cases "calculateCPM tasks ds") (simp_all add: trial_def d c Let_def)
qed

lemma mcLoop_total:
  assumes "\<forall>t \<in> set tasks. distType t \<noteq> Normal \<and> distType t \<noteq> LogNormal"
  shows "\<exists>acc' g'. mcLoop R tasks n acc g = Some (acc', g')"
proof (induction n arbitrary: acc g)
  case 0
  show ?case by simp
next
  case (Suc n)
  obtain a1 g1 where t: "trial R tasks acc g = Some (a1, g1)"
    using trial_total [OF assms, of R acc g] by blast
  show ?case using Suc [of a1 g1] by (simp add: t)
qed

lemma run_total:
  assumes "\<forall>t \<in> set tasks. distType t \<noteq> Normal \<and> distType t \<noteq> LogNormal"
  shows "\<exists>res g'. runMonteCarloSimulation R tasks numRuns g = Some (res, g')"
proof -
  obtain acc g' where "mcLoop R tasks numRuns (initAccumulators tasks) g = Some (acc, g')"
    using mcLoop_total [OF assms, of R numRuns "initAccumulators tasks" g] by blast
  then show ?thesis by (simp add: runMonteCarloSimulation_def)
qed

lemma drawNonZero_total:
  assumes "productive R"
  shows "\<exists>u g'. drawNonZero R g = Some (u, g')"
proof -
  have "\<exists>u g'. drawNonZero R g = Some (u, g')"
    if "fst (realZeroToOneExclusive R (drawsAfter R k g)) \<noteq> 0" for k g
    using that
  proof (induction k arbitrary: g)
    case 0
    then show ?case
      by (cases "realZeroToOneExclusive R g") (simp add: drawNonZero.simps [of R g])
  next
    case (Suc k)
    obtain u g1 where d: "realZeroToOneExclusive R g = (u, g1)"
      by (cases "realZeroToOneExclusive R g")
    show ?case
    proof (cases "u = 0")
      case True
      have "fst (realZeroToOneExclusive R (drawsAfter R k g1)) \<noteq> 0"
        using Suc.prems by (simp add: d)
      then obtain v g2 where "drawNonZero R g1 = Some (v, g2)" using Suc.IH by blast
      then show ?thesis using True by (simp add: drawNonZero.simps [of R g] d)
    next
      case False
      then show ?thesis by (simp add: drawNonZero.simps [of R g] d)
    qed
  qed
  note step = this
  obtain k where "fst (realZeroToOneExclusive R (drawsAfter R k g)) \<noteq> 0"
    using assms unfolding productive_def by blast
  then show ?thesis by (rule step)
qed

lemma randomNormal_total:
  assumes "productive R"
  shows "\<exists>x g'. randomNormal R m sd g = Some (x, g')"
proof -
  obtain u g1 where u: "drawNonZero R g = Some (u, g1)"
    using drawNonZero_total [OF assms, of g] by blast
  obtain v g2 where v: "drawNonZero R g1 = Some (v, g2)"
    using drawNonZero_total [OF assms, of g1] by blast
  show ?thesis by (simp add: randomNormal_def u v Let_def)
qed

lemma randomLogNormal_total:
  assumes "productive R"
  shows "\<exists>x g'. randomLogNormal R m sg g = Some (x, g')"
proof -
  obtain x g1 where "randomNormal R m sg g = Some (x, g1)"
    using randomNormal_total [OF assms, of m sg g] by blast
  then show ?thesis by (simp add: randomLogNormal_def)
qed

lemma sampleDuration_productive:
  assumes "productive R"
  shows "\<exists>d g'. sampleDuration R t g = Some (d, g')"
proof (cases "distType t = Normal \<or> distType t = LogNormal")
  case False
  then show ?thesis using sampleDuration_total [of t R g] by simp
next
  case True
  then show ?thesis
    using randomNormal_total [OF assms, of "mean (normalParams t)" "stdDev (normalParams t)" g]
      randomLogNormal_total [OF assms, of "mu (logNormalParams t)" "sigma (logNormalParams t)" g]
    by (auto simp: sampleDuration_def)
qed

lemma runDurations_productive:
  assumes "productive R"
  shows "\<exists>ds g'. runDurations R tasks g = Some (ds, g')"
proof (induction tasks arbitrary: g)
  case Nil
  show ?case by simp
next
  case (Cons t tasks)
  obtain d g1 where d: "sampleDuration R t g = Some (d, g1)"
    using sampleDuration_productive [OF assms, of t g] by blast
  obtain ds g2 where "runDurations R tasks g1 = Some (ds, g2)"
    using Cons.IH [of g1] by blast
  then show ?case by (simp add: d)
qed

lemma trial_productive:
  assumes "productive R"
  shows "\<exists>acc' g'. trial R tasks acc g = Some (acc', g')"
proof -
  obtain ds g1 where d: "runDurations R tasks g = Some (ds, g1)"
    using runDurations_productive [OF assms, of tasks g] by blast
  obtain cs g2 where c: "runCosts R tasks g1 = (cs, g2)" by (cases "runCosts R tasks g1")
  show ?thesis
    by (cases "calculateCPM tasks ds") (simp_all add: trial_def d c Let_def)
qed

lemma mcLoop_productive:
  assumes "productive R"
  shows "\<exists>acc' g'. mcLoop R tasks n acc g = Some (acc', g')"
proof (induction n arbitrary: acc g)
  case 0
  show ?case by simp
next
  case (Suc n)
  obtain a1 g1 where t: "trial R tasks acc g = Some (a1, g1)"
    using trial_productive [OF assms, of tasks acc g] by blast
  show ?case using Suc [of a1 g1] by (simp add: t)
qed

lemma run_productive:
  assumes "productive R"
  shows "\<exists>res g'. runMonteCarloSimulation R tasks numRuns g = Some (res, g')"
proof -
  obtain acc g' where "mcLoop R tasks numRuns (initAccumulators tasks) g = Some (acc, g')"
    using mcLoop_productive [OF assms, of tasks numRuns "initAccumulators tasks" g] by blast
  then show ?thesis by (simp add: runMonteCarloSimulation_def)
qed

text \<open>
  Claim C6. With a productive generator \<open>runMonteCarloSimulation\<close> returns, and when no
  trial succeeded (no trial was run, or the tasks cannot be scheduled, which does not
  depend on the sampled durations) what it returns is the empty result: no runs, no
  analysis, no samples, no timings. An analysis is computed exactly when there is a valid
  run, so it never divides by a count of 0.
\<close>

theorem C6_empty_result_without_valid_run:
  assumes "productive R"
  shows "\<exists>res g'. runMonteCarloSimulation R tasks numRuns g = Some (res, g')
    \<and> (numRuns = 0 \<or> \<not> schedulable tasks \<longrightarrow> res = emptyResult)
    \<and> (simulationRuns res = [] \<longrightarrow> res = emptyResult)
    \<and> (analysis res = None \<longleftrightarrow> simulationRuns res = [])
    \<and> (\<forall>ds. calculateCPM tasks ds = None \<longleftrightarrow> \<not> schedulable tasks)
    \<and> emptyResult = \<lparr>simulationRuns = [], analysis = None, taskDurationSamples = [],
                      taskCostSamples = [], allTaskTimings = Map.empty\<rparr>"
proof -
  obtain res g' where r: "runMonteCarloSimulation R tasks numRuns g = Some (res, g')"
    using run_productive [OF assms, of tasks numRuns g] by blast
  then obtain acc where l: "mcLoop R tasks numRuns (initAccumulators tasks) g = Some (acc, g')"
    and res: "res = finishSimulation tasks acc"
    by (rule run_cases)
  have n: "length (acc_simulationRuns acc) = (if schedulable tasks then numRuns else 0)"
    using mcLoop_inv(2) [OF l init_inv(1)] by (simp add: init_inv(3))
  have a: "res = emptyResult" if "numRuns = 0 \<or> \<not> schedulable tasks"
    using that n by (auto simp: res finishSimulation_cases(1))
  have b: "res = emptyResult" if "simulationRuns res = []"
    using that by (cases "acc_simulationRuns acc = []") (simp_all add: res finishSimulation_cases)
  have c: "analysis res = None \<longleftrightarrow> simulationRuns res = []"
    by (cases "acc_simulationRuns acc = []")
       (simp_all add: res finishSimulation_cases emptyResult_def)
  have d: "\<forall>ds. calculateCPM tasks ds = None \<longleftrightarrow> \<not> schedulable tasks"
    by (simp add: calculateCPM_None_iff)
  have e: "emptyResult = \<lparr>simulationRuns = [], analysis = None, taskDurationSamples = [],
                      taskCostSamples = [], allTaskTimings = Map.empty\<rparr>"
    by (simp add: emptyResult_def)
  show ?thesis
  proof (intro exI conjI)
    show "runMonteCarloSimulation R tasks numRuns g = Some (res, g')" by (rule r)
    show "numRuns = 0 \<or> \<not> schedulable tasks \<longrightarrow> res = emptyResult" using a by blast
    show "simulationRuns res = [] \<longrightarrow> res = emptyResult" using b by blast
    show "analysis res = None \<longleftrightarrow> simulationRuns res = []" by (rule c)
    show "\<forall>ds. calculateCPM tasks ds = None \<longleftrightarrow> \<not> schedulable tasks" by (rule d)
    show "emptyResult = \<lparr>simulationRuns = [], analysis = None, taskDurationSamples = [],
                      taskCostSamples = [], allTaskTimings = Map.empty\<rparr>" by (rule e)
  qed
qed

lemma tasksById_lookup:
  assumes "distinct (map id_task tasks)" "t \<in> set tasks"
  shows "tasksById tasks (id_task t) = Some t"
proof -
  have "distinct (map fst (rev (map (\<lambda>t. (id_task t, t)) tasks)))"
    using assms(1) by (simp add: rev_map [symmetric] comp_def)
  moreover have "(id_task t, t) \<in> set (rev (map (\<lambda>t. (id_task t, t)) tasks))"
    using assms(2) by auto
  ultimately show ?thesis unfolding tasksById_def by (rule map_of_is_SomeI)
qed

lemma dependsBack_found:
  assumes "d \<in> set deps" "tm (predecessorId d) = Some p"
    and "list_ex (\<lambda>pDep. predecessorId pDep = id_task task) (dependencies p)"
  shows "dependsBack tm task deps \<noteq> None"
  using assms(1)
proof (induction deps)
  case Nil
  then show ?case by simp
next
  case (Cons a deps)
  show ?case
  proof (cases "a = d")
    case True
    then show ?thesis using assms(2,3) by simp
  next
    case False
    then have "dependsBack tm task deps \<noteq> None" using Cons by simp
    then show ?thesis by (simp split: option.split)
  qed
qed

lemma directCycle_found:
  assumes "task \<in> set ts" "dependsBack tm task (dependencies task) \<noteq> None"
  shows "directCycle tm ts \<noteq> None"
  using assms(1)
proof (induction ts)
  case Nil
  then show ?case by simp
next
  case (Cons a ts)
  show ?case
  proof (cases "a = task")
    case True
    then show ?thesis using assms(2) by (auto split: option.split)
  next
    case False
    then have "directCycle tm ts \<noteq> None" using Cons by simp
    then show ?thesis by (simp split: option.split)
  qed
qed

text \<open>
  Claim C1. When two tasks of a task set with unique ids depend on each other,
  \<open>runSimulation\<close> fails with the direct-cycle error whatever the generator and the number
  of runs are, and leaves the generator as it was: no trial is sampled or scheduled.
\<close>

theorem C1_direct_cycle_rejected_up_front:
  assumes "distinct (map id_task tasks)" "A \<in> set tasks" "B \<in> set tasks"
    and "\<exists>d \<in> set (dependencies A). predecessorId d = id_task B"
    and "\<exists>d \<in> set (dependencies B). predecessorId d = id_task A"
  shows "\<exists>n1 n2. runSimulation R tasks numRuns g = Some (Failed (DirectCycle n1 n2), g)"
proof -
  obtain d where d: "d \<in> set (dependencies A)" "predecessorId d = id_task B"
    using assms(4) by blast
  have tb: "tasksById tasks (predecessorId d) = Some B"
    using tasksById_lookup [OF assms(1,3)] d(2) by simp
  have bk: "list_ex (\<lambda>pDep. predecessorId pDep = id_task A) (dependencies B)"
    using assms(5) by (simp add: list_ex_iff)
  have "dependsBack (tasksById tasks) A (dependencies A) \<noteq> None"
    by (rule dependsBack_found [where tm = "tasksById tasks" and p = B, OF d(1) tb bk])
  then have "directCycle (tasksById tasks) tasks \<noteq> None"
    by (rule directCycle_found [OF assms(2)])
  then obtain t p where c: "directCycle (tasksById tasks) tasks = Some (t, p)" by auto
  have "tasks \<noteq> []" using assms(2) by auto
  then have "runSimulation R tasks numRuns g = Some (Failed (DirectCycle (name t) (name p)), g)"
    by (simp add: runSimulation_def c)
  then show ?thesis by blast
qed

lemma cycle_sel:
  "distinct (map id_task cycleExample)"
  "cycleExample ! 0 \<in> set cycleExample" "cycleExample ! 1 \<in> set cycleExample"
  "\<exists>d \<in> set (dependencies (cycleExample ! 0)). predecessorId d = id_task (cycleExample ! 1)"
  "\<exists>d \<in> set (dependencies (cycleExample ! 1)). predecessorId d = id_task (cycleExample ! 0)"
  by (simp_all add: cycleExample_def exampleTask_sel)

theorem C1_direct_cycle_rejected_up_front_witness:
  "\<exists>n1 n2. runSimulation countingRandom cycleExample 500 0 = Some (Failed (DirectCycle n1 n2), 0)"
  by (rule C1_direct_cycle_rejected_up_front [OF cycle_sel])

lemma cycle_ne:
  "START \<noteq> END" "END \<noteq> START" "START \<noteq> ''A''" "''A'' \<noteq> START" "END \<noteq> ''A''" "''A'' \<noteq> END"
  "START \<noteq> ''B''" "''B'' \<noteq> START" "END \<noteq> ''B''" "''B'' \<noteq> END"
  by (simp_all add: START_def END_def)

lemma cycle_graph:
  "buildGraph cycleExample =
     \<lparr>nodes = [START, END, ''A'', ''B''],
      adj = [(''A'', [''B'']), (''B'', [''A'']), (START, [])],
      revAdj = [(''A'', [''B'']), (''B'', [''A'']), (END, [])]\<rparr>"
  by (simp add: cycleExample_def exampleTask_sel buildGraph_def initGraph_def linkTask_def
      linkEnd_def addEdge_def push_at_def set_add_def Let_def cycle_ne)

lemma cycle_topo:
  "topoSort \<lparr>nodes = [START, END, ''A'', ''B''],
      adj = [(''A'', [''B'']), (''B'', [''A'']), (START, [])],
      revAdj = [(''A'', [''B'']), (''B'', [''A'']), (END, [])]\<rparr> = [START, END]"
  by (simp add: topoSort_def countInDegree_def relaxAll_def relax_def Let_def cycle_ne)

lemma cycle_not_schedulable: "\<not> schedulable cycleExample"
  unfolding schedulable_def cycle_graph cycle_topo by simp

lemma example_dists:
  "\<forall>t \<in> set cycleExample. distType t \<noteq> Normal \<and> distType t \<noteq> LogNormal"
  "\<forall>t \<in> set leadExample. distType t \<noteq> Normal \<and> distType t \<noteq> LogNormal"
  by (simp_all add: cycleExample_def leadExample_def exampleTask_sel)

lemma countingRandom_productive: "productive countingRandom"
proof -
  have "fst (realZeroToOneExclusive countingRandom (drawsAfter countingRandom 0 g)) \<noteq> 0" for g
    by (simp add: countingRandom_def)
  then show ?thesis unfolding productive_def by blast
qed

lemma normalCycle_graph: "buildGraph normalCycleExample = buildGraph cycleExample"
  by (simp add: normalCycleExample_def cycleExample_def exampleTask_sel buildGraph_def
      initGraph_def linkTask_def linkEnd_def addEdge_def push_at_def set_add_def Let_def cycle_ne)

lemma normalCycle_not_schedulable: "\<not> schedulable normalCycleExample"
  using cycle_not_schedulable by (simp add: schedulable_def normalCycle_graph)

theorem C6_empty_result_without_valid_run_witness:
  "productive countingRandom \<and> \<not> schedulable normalCycleExample
   \<and> (\<exists>t \<in> set normalCycleExample. distType t = Normal \<and> stdDev (normalParams t) = 1)
   \<and> (\<exists>g'. runMonteCarloSimulation countingRandom normalCycleExample 2 0 = Some (emptyResult, g'))"
proof -
  have "\<exists>g'. runMonteCarloSimulation countingRandom normalCycleExample 2 0 = Some (emptyResult, g')"
    using C6_empty_result_without_valid_run [OF countingRandom_productive, of normalCycleExample 2 0]
      normalCycle_not_schedulable by auto
  moreover have "\<exists>t \<in> set normalCycleExample. distType t = Normal \<and> stdDev (normalParams t) = 1"
    by (simp add: normalCycleExample_def cycleExample_def)
  ultimately show ?thesis
    using countingRandom_productive normalCycle_not_schedulable by blast
qed

lemma lead_schedulable: "schedulable leadExample"
  using lead_result calculateCPM_None_iff [of leadExample "[2, 10, 2]"] by simp

theorem C5_sample_sequences_match_valid_runs_witness:
  "(\<exists>res g'. runMonteCarloSimulation countingRandom leadExample 2 0 = Some (res, g')
     \<and> length (simulationRuns res) = 2
     \<and> length (taskDurationSamples res) = 3
     \<and> (\<forall>idx < 3. length (taskDurationSamples res ! idx) = 2
                   \<and> length (taskCostSamples res ! idx) = 2)
     \<and> (\<forall>t \<in> set leadExample.
           \<exists>s. allTaskTimings res (id_task t) = Some s
               \<and> length (starts s) = 2 \<and> length (finishes s) = 2))
   \<and> (\<exists>acc g'. mcLoop countingRandom cycleExample 2 (initAccumulators cycleExample) 0
                    = Some (acc, g')
        \<and> acc_simulationRuns acc = []
        \<and> length (acc_taskDurationSamples acc) = 2
        \<and> (\<forall>idx < 2. acc_taskDurationSamples acc ! idx = []
                      \<and> acc_taskCostSamples acc ! idx = []))
   \<and> (\<exists>h'. trial countingRandom cycleExample (initAccumulators cycleExample) 0
               = Some (initAccumulators cycleExample, h'))"
proof -
  obtain res g' where r: "runMonteCarloSimulation countingRandom leadExample 2 0 = Some (res, g')"
    using run_total [OF example_dists(2), of countingRandom 2 0] by blast
  have d: "distinct (map id_task leadExample)" "length leadExample = 3"
    by (simp_all add: leadExample_def exampleTask_sel)
  have C: "length (simulationRuns res) = (if schedulable leadExample then 2 else 0)
    \<and> (simulationRuns res \<noteq> [] \<longrightarrow>
         length (taskDurationSamples res) = length leadExample
         \<and> length (taskCostSamples res) = length leadExample
         \<and> (\<forall>idx < length leadExample.
               length (taskDurationSamples res ! idx) = length (simulationRuns res)
               \<and> length (taskCostSamples res ! idx) = length (simulationRuns res))
         \<and> (distinct (map id_task leadExample) \<longrightarrow>
               (\<forall>t \<in> set leadExample.
                  \<exists>s. allTaskTimings res (id_task t) = Some s
                      \<and> length (starts s) = length (simulationRuns res)
                      \<and> length (finishes s) = length (simulationRuns res))))"
    using C5_sample_sequences_match_valid_runs [OF r]
    by (elim exE conjE) (intro conjI, assumption+)
  have n: "length (simulationRuns res) = 2" using C lead_schedulable by simp
  then have ne: "simulationRuns res \<noteq> []" by auto
  have "length (taskDurationSamples res) = 3
     \<and> (\<forall>idx < 3. length (taskDurationSamples res ! idx) = 2
                   \<and> length (taskCostSamples res ! idx) = 2)
     \<and> (\<forall>t \<in> set leadExample.
           \<exists>s. allTaskTimings res (id_task t) = Some s
               \<and> length (starts s) = 2 \<and> length (finishes s) = 2)"
    using C ne d unfolding n by simp
  then have first: "\<exists>res g'. runMonteCarloSimulation countingRandom leadExample 2 0 = Some (res, g')
     \<and> length (simulationRuns res) = 2
     \<and> length (taskDurationSamples res) = 3
     \<and> (\<forall>idx < 3. length (taskDurationSamples res ! idx) = 2
                   \<and> length (taskCostSamples res ! idx) = 2)
     \<and> (\<forall>t \<in> set leadExample.
           \<exists>s. allTaskTimings res (id_task t) = Some s
               \<and> length (starts s) = 2 \<and> length (finishes s) = 2)"
    using r n by blast
  obtain res2 g2 where r2: "runMonteCarloSimulation countingRandom cycleExample 2 0 = Some (res2, g2)"
    using run_total [OF example_dists(1), of countingRandom 2 0] by blast
  have lc: "length cycleExample = 2" by (simp add: cycleExample_def)
  have "\<exists>acc. mcLoop countingRandom cycleExample 2 (initAccumulators cycleExample) 0
                    = Some (acc, g2)
    \<and> length (acc_simulationRuns acc) = (if schedulable cycleExample then 2 else 0)
    \<and> length (acc_taskDurationSamples acc) = length cycleExample
    \<and> (\<forall>idx < length cycleExample.
          length (acc_taskDurationSamples acc ! idx) = length (acc_simulationRuns acc)
          \<and> length (acc_taskCostSamples acc ! idx) = length (acc_simulationRuns acc))
    \<and> (\<forall>a h a' h'.
          length (acc_taskDurationSamples a) = length cycleExample
          \<and> length (acc_taskCostSamples a) = length cycleExample
          \<and> trial countingRandom cycleExample a h = Some (a', h') \<and> \<not> schedulable cycleExample
          \<longrightarrow> a' = a)"
    using C5_sample_sequences_match_valid_runs [OF r2]
    by (elim exE conjE) (intro exI conjI, assumption+)
  then obtain acc where A: "mcLoop countingRandom cycleExample 2 (initAccumulators cycleExample) 0
                    = Some (acc, g2)"
    "length (acc_simulationRuns acc) = (if schedulable cycleExample then 2 else 0)"
    "length (acc_taskDurationSamples acc) = length cycleExample"
    "\<forall>idx < length cycleExample.
          length (acc_taskDurationSamples acc ! idx) = length (acc_simulationRuns acc)
          \<and> length (acc_taskCostSamples acc ! idx) = length (acc_simulationRuns acc)"
    and D: "\<forall>a h a' h'.
          length (acc_taskDurationSamples a) = length cycleExample
          \<and> length (acc_taskCostSamples a) = length cycleExample
          \<and> trial countingRandom cycleExample a h = Some (a', h') \<and> \<not> schedulable cycleExample
          \<longrightarrow> a' = a"
    by (elim exE conjE)
  have e: "acc_simulationRuns acc = []" using A(2) cycle_not_schedulable by simp
  have second: "\<exists>acc g'. mcLoop countingRandom cycleExample 2 (initAccumulators cycleExample) 0
                    = Some (acc, g')
        \<and> acc_simulationRuns acc = []
        \<and> length (acc_taskDurationSamples acc) = 2
        \<and> (\<forall>idx < 2. acc_taskDurationSamples acc ! idx = []
                      \<and> acc_taskCostSamples acc ! idx = [])"
    using A(1,3,4) e lc by auto
  obtain a1 h1 where t: "trial countingRandom cycleExample (initAccumulators cycleExample) 0
      = Some (a1, h1)"
    using trial_total [OF example_dists(1), of countingRandom "initAccumulators cycleExample" 0]
    by blast
  have "a1 = initAccumulators cycleExample"
    using D t cycle_not_schedulable init_inv(1) [of cycleExample]
    unfolding samplesInv_def by blast
  then have third: "\<exists>h'. trial countingRandom cycleExample (initAccumulators cycleExample) 0
               = Some (initAccumulators cycleExample, h')"
    using t by blast
  show ?thesis using first second third by blast
qed


text \<open>
  The check before the batch looks for direct cycles only: a ring of three tasks passes
  it, every trial finds the cycle again, and the batch ends without valid results.
\<close>

lemma ring_ne:
  "START \<noteq> END" "END \<noteq> START" "START \<noteq> ''A''" "''A'' \<noteq> START" "END \<noteq> ''A''" "''A'' \<noteq> END"
  "START \<noteq> ''B''" "''B'' \<noteq> START" "END \<noteq> ''B''" "''B'' \<noteq> END"
  "START \<noteq> ''C''" "''C'' \<noteq> START" "END \<noteq> ''C''" "''C'' \<noteq> END"
  by (simp_all add: START_def END_def)

lemma ring_graph:
  "buildGraph ringExample =
     \<lparr>nodes = [START, END, ''A'', ''B'', ''C''],
      adj = [(''A'', [''B'']), (''B'', [''C'']), (''C'', [''A'']), (START, [])],
      revAdj = [(''A'', [''C'']), (''B'', [''A'']), (''C'', [''B'']), (END, [])]\<rparr>"
  by (simp add: ringExample_def exampleTask_sel buildGraph_def initGraph_def linkTask_def
      linkEnd_def addEdge_def push_at_def set_add_def Let_def ring_ne)

lemma ring_topo:
  "topoSort \<lparr>nodes = [START, END, ''A'', ''B'', ''C''],
      adj = [(''A'', [''B'']), (''B'', [''C'']), (''C'', [''A'']), (START, [])],
      revAdj = [(''A'', [''C'']), (''B'', [''A'']), (''C'', [''B'']), (END, [])]\<rparr> = [START, END]"
  by (simp add: topoSort_def countInDegree_def relaxAll_def relax_def Let_def ring_ne)

lemma ring_not_schedulable: "\<not> schedulable ringExample"
  unfolding schedulable_def ring_graph ring_topo by simp

lemma ring_no_direct_cycle: "directCycle (tasksById ringExample) ringExample = None"
  by (simp add: ringExample_def exampleTask_sel tasksById_def)

lemma ring_runs_every_trial:
  "\<exists>g'. runSimulation countingRandom ringExample numRuns 0 = Some (Failed NoValidResults, g')"
proof -
  have d: "\<forall>t \<in> set ringExample. distType t \<noteq> Normal \<and> distType t \<noteq> LogNormal"
    by (simp add: ringExample_def exampleTask_sel)
  obtain res g' where r: "runMonteCarloSimulation countingRandom ringExample numRuns 0 = Some (res, g')"
    using run_total [OF d, of countingRandom numRuns 0] by blast
  have e: "res = emptyResult" using run_valid_count(2) [OF r] ring_not_schedulable by simp
  have "ringExample \<noteq> []" by (simp add: ringExample_def)
  then have "runSimulation countingRandom ringExample numRuns 0 = Some (Failed NoValidResults, g')"
    by (simp add: runSimulation_def ring_no_direct_cycle r e emptyResult_def)
  then show ?thesis by blast
qed

section \<open>The sensitivity of a task of constant duration\<close>

lemma one_graph:
  "buildGraph [exampleTask ''A'' d []] =
     \<lparr>nodes = [START, END, ''A''], adj = [(''A'', [END]), (START, [''A''])],
      revAdj = [(''A'', [START]), (END, [''A''])]\<rparr>"
  by (simp add: exampleTask_sel buildGraph_def initGraph_def linkTask_def
      linkEnd_def addEdge_def push_at_def set_add_def Let_def single_ne)

lemma one_times:
  assumes "0 \<le> d"
  shows "cpmTimes [exampleTask ''A'' d []] [d] =
     \<lparr>es = (\<lambda>node. 0)(''A'' := 0, END := d), ef = (\<lambda>node. 0)(''A'' := d, END := d),
      ls = (\<lambda>node. d)(''A'' := 0, START := 0), lf = (\<lambda>node. d)(''A'' := d, START := 0)\<rparr>"
proof -
  have tm: "taskMap [exampleTask ''A'' d []] [d]
      = [''A'' \<mapsto> \<lparr>entry_task = exampleTask ''A'' d [], index = 0, entry_duration = Some d\<rparr>]"
    by (simp add: taskMap_def exampleTask_sel)
  show ?thesis
    unfolding cpmTimes_def Let_def one_graph single_topo tm
    using assms
    by (simp add: forwardPass_def forwardStep_def requiredStart_def findDependency_def
        durationOf_def backwardPass_def backwardStep_def requiredFinish_def Let_def
        exampleTask_sel single_ne)
qed

lemma one_result:
  assumes "0 \<le> d"
  shows "calculateCPM [exampleTask ''A'' d []] [d] =
     Some \<lparr>totalDuration = d, criticalPathTasks = [''A''],
           taskTimings = [''A'' \<mapsto> \<lparr>es_t = 0, ef_t = d\<rparr>]\<rparr>"
  unfolding calculateCPM_def Let_def one_times [OF assms] one_graph single_topo
  by (simp add: isCritical_def MIN_SLACK_TOLERANCE_def set_add_def
      exampleTask_sel single_ne)

lemma one_samples:
  "runDurations R [exampleTask ''A'' d []] g = Some ([d], g)"
  "runCosts R [exampleTask ''A'' d []] g = ([0], g)"
  by (simp_all add: sampleDuration_def randomTriangular_def exampleTask_sel)

lemma one_trial:
  assumes "0 \<le> d" "acc_taskDurationSamples acc = [ds]" "acc_taskCostSamples acc = [cs]"
  shows "\<exists>acc'. trial R [exampleTask ''A'' d []] acc g = Some (acc', g)
     \<and> acc_taskDurationSamples acc' = [ds @ [d]]
     \<and> acc_taskCostSamples acc' = [cs @ [0]]
     \<and> map run_totalDuration (acc_simulationRuns acc')
         = map run_totalDuration (acc_simulationRuns acc) @ [d]"
  by (simp add: trial_def one_samples one_result [OF assms(1)] Let_def pushSamples_def assms(2,3)
      del: runDurations.simps runCosts.simps)

lemma one_loop:
  assumes "0 \<le> d"
  shows "acc_taskDurationSamples acc = [ds] \<Longrightarrow> acc_taskCostSamples acc = [cs] \<Longrightarrow>
    \<exists>acc'. mcLoop R [exampleTask ''A'' d []] n acc g = Some (acc', g)
     \<and> acc_taskDurationSamples acc' = [ds @ replicate n d]
     \<and> map run_totalDuration (acc_simulationRuns acc')
         = map run_totalDuration (acc_simulationRuns acc) @ replicate n d"
proof (induction n arbitrary: acc ds cs)
  case 0
  then show ?case by simp
next
  case (Suc n)
  obtain a1 where t: "trial R [exampleTask ''A'' d []] acc g = Some (a1, g)"
     "acc_taskDurationSamples a1 = [ds @ [d]]"
     "acc_taskCostSamples a1 = [cs @ [0]]"
     "map run_totalDuration (acc_simulationRuns a1)
         = map run_totalDuration (acc_simulationRuns acc) @ [d]"
    using one_trial [OF assms Suc.prems, of R g] by blast
  obtain a2 where "mcLoop R [exampleTask ''A'' d []] n a1 g = Some (a2, g)"
     "acc_taskDurationSamples a2 = [(ds @ [d]) @ replicate n d]"
     "map run_totalDuration (acc_simulationRuns a2)
         = map run_totalDuration (acc_simulationRuns a1) @ replicate n d"
    using Suc.IH [OF t(2,3)] by blast
  then show ?case using t by (simp add: replicate_app_Cons_same)
qed

lemma tenth_sensitivity:
  "\<exists>res a. runMonteCarloSimulation R tenthExample 3 g = Some (res, g)
     \<and> analysis res = Some a \<and> durationSensitivity a = [1]"
proof -
  define c :: real where "c = 3602879701896397 / 2 ^ 55"
  have c: "0 \<le> c" by (simp add: c_def)
  have i: "acc_taskDurationSamples (initAccumulators [exampleTask ''A'' c []]) = [[]]"
    "acc_taskCostSamples (initAccumulators [exampleTask ''A'' c []]) = [[]]"
    "acc_simulationRuns (initAccumulators [exampleTask ''A'' c []]) = []"
    by (simp_all add: initAccumulators_def)
  obtain acc where l: "mcLoop R [exampleTask ''A'' c []] 3 (initAccumulators [exampleTask ''A'' c []]) g
        = Some (acc, g)"
    and d: "acc_taskDurationSamples acc = [[] @ replicate 3 c]"
    and r: "map run_totalDuration (acc_simulationRuns acc)
         = map run_totalDuration (acc_simulationRuns (initAccumulators [exampleTask ''A'' c []]))
           @ replicate 3 c"
    using one_loop [OF c i(1,2), of R 3 g] by blast
  have r3: "map run_totalDuration (acc_simulationRuns acc) = [c, c, c]"
    using r by (simp add: i(3) numeral_3_eq_3)
  then have ne: "acc_simulationRuns acc \<noteq> []" by auto
  have d3: "acc_taskDurationSamples acc = [[c, c, c]]" using d by (simp add: numeral_3_eq_3)
  have "durationSensitivity (buildAnalysis [exampleTask ''A'' c []] acc) = [pearsonCorrelation [c, c, c] [c, c, c]]"
    by (simp add: buildAnalysis_def Let_def r3 d3 samplesAt_def)
  then have "durationSensitivity (buildAnalysis [exampleTask ''A'' c []] acc) = [1]"
    using pearson_tenth by (simp add: c_def)
  then have "\<exists>res a. runMonteCarloSimulation R [exampleTask ''A'' c []] 3 g = Some (res, g)
     \<and> analysis res = Some a \<and> durationSensitivity a = [1]"
    using l ne by (simp add: runMonteCarloSimulation_def finishSimulation_def Let_def)
  then show ?thesis by (simp add: tenthExample_def c_def)
qed

text \<open>
  Claim C9 on the code. The sequence \<open>[0.1, 0.1, 0.1]\<close> of doubles (the double nearest to
  \<open>0.1\<close> is \<open>3602879701896397 / 2^55\<close>) is constant: its sample standard deviation is 0
  and the specification's correlation of it with itself is 0. The code rounds the mean
  to \<open>7205759403792795 / 2^56\<close>, one unit in the last place above the elements, so the
  standard deviation it computes is not 0, the guard \<open>stdDevX === 0\<close> does not hold, and
  the result is 1. Three runs of one task with that constant duration pass exactly these
  two sequences, and the analysis reports the duration sensitivity 1 for the task.
\<close>

theorem C9_pearsonCorrelation_constant_sequence:
  "pearsonCorrelation
     [3602879701896397 / 2 ^ 55, 3602879701896397 / 2 ^ 55, 3602879701896397 / 2 ^ 55]
     [3602879701896397 / 2 ^ 55, 3602879701896397 / 2 ^ 55, 3602879701896397 / 2 ^ 55] = 1
   \<and> sampleStdDev
       [3602879701896397 / 2 ^ 55, 3602879701896397 / 2 ^ 55, 3602879701896397 / 2 ^ 55] = 0
   \<and> Pearson_spec
       [3602879701896397 / 2 ^ 55, 3602879701896397 / 2 ^ 55, 3602879701896397 / 2 ^ 55]
       [3602879701896397 / 2 ^ 55, 3602879701896397 / 2 ^ 55, 3602879701896397 / 2 ^ 55] = 0
   \<and> binary64 (3602879701896397 / 2 ^ 55) = 3602879701896397 / 2 ^ 55
   \<and> (\<exists>res a. runMonteCarloSimulation countingRandom tenthExample 3 0 = Some (res, 0)
          \<and> analysis res = Some a \<and> durationSensitivity a = [1])"
proof -
  have sd: "sampleStdDev
       [3602879701896397 / 2 ^ 55, 3602879701896397 / 2 ^ 55, 3602879701896397 / 2 ^ 55] = 0"
    by (rule stdDev_constant [where k = "3602879701896397 / 2 ^ 55"]) simp_all
  have sp: "Pearson_spec
       [3602879701896397 / 2 ^ 55, 3602879701896397 / 2 ^ 55, 3602879701896397 / 2 ^ 55]
       [3602879701896397 / 2 ^ 55, 3602879701896397 / 2 ^ 55, 3602879701896397 / 2 ^ 55] = 0"
    using sd by (simp add: pearson_unfold)
  have ex: "binary64 (3602879701896397 / 2 ^ 55) = 3602879701896397 / 2 ^ 55"
    using binary64_exact [of 3602879701896397 55] by simp
  show ?thesis
    using pearson_tenth sd sp ex tenth_sensitivity [of countingRandom 0] by simp
qed

end
